theory Spec2Isabelle
  imports Main
begin

section \<open>Python strings and dictionaries\<close>

text \<open>
  A Python \<open>str\<close> is modelled as a HOL \<open>string\<close>; a character is read as a code point
  below 256.  \<open>py_isspace\<close> is \<open>str.isspace\<close> on these code points: tab, line feed,
  vertical tab, form feed, carriage return, the separators 0x1c to 0x1f, the blank, and
  the Latin-1 characters 0x85 and 0xa0.  The same set is used by \<open>str.split()\<close> and
  \<open>str.strip()\<close> without arguments.
\<close>

definition py_isspace :: "char \<Rightarrow> bool" where
  "py_isspace c = (of_char c \<in> {9, 10, 11, 12, 13, 28, 29, 30, 31, 32, 133, 160 :: nat})"

text \<open>\<open>s.split()\<close>: the maximal runs of non-whitespace characters, left to right.
  \<open>split_ws cur s\<close> carries the word being read.\<close>

fun split_ws :: "string \<Rightarrow> string \<Rightarrow> string list" where
  "split_ws cur [] = (if cur = [] then [] else [cur])"
| "split_ws cur (c # cs) =
     (if py_isspace c
      then (if cur = [] then split_ws [] cs else cur # split_ws [] cs)
      else split_ws (cur @ [c]) cs)"

definition py_split :: "string \<Rightarrow> string list" where
  "py_split s = split_ws [] s"

text \<open>\<open>s.strip()\<close>\<close>

definition py_strip :: "string \<Rightarrow> string" where
  "py_strip s = rev (dropWhile py_isspace (rev (dropWhile py_isspace s)))"

text \<open>\<open>s.split(sep)\<close> for a one-character separator: every piece is kept, also the
  empty ones, and the empty string gives one empty piece.\<close>

fun split_on :: "char \<Rightarrow> string \<Rightarrow> string list" where
  "split_on sep [] = [[]]"
| "split_on sep (c # cs) =
     (if c = sep then [] # split_on sep cs
      else (case split_on sep cs of
              [] \<Rightarrow> [[c]]
            | w # ws \<Rightarrow> (c # w) # ws))"

text \<open>\<open>s.startswith(p)\<close>\<close>

fun startswith :: "string \<Rightarrow> string \<Rightarrow> bool" where
  "startswith s [] = True"
| "startswith [] (p # ps) = False"
| "startswith (c # cs) (p # ps) = (c = p \<and> startswith cs ps)"

text \<open>\<open>p in s\<close> on strings: \<open>p\<close> occurs in \<open>s\<close> as a contiguous substring.\<close>

fun py_in :: "string \<Rightarrow> string \<Rightarrow> bool" where
  "py_in p [] = (p = [])"
| "py_in p (c # cs) = (startswith (c # cs) p \<or> py_in p cs)"

text \<open>\<open>s.replace(old, new)\<close>: the non-overlapping occurrences of \<open>old\<close>, scanned from
  the left, are replaced.  For an empty \<open>old\<close> Python inserts \<open>new\<close> before every
  character and at the end.\<close>

function py_replace :: "string \<Rightarrow> string \<Rightarrow> string \<Rightarrow> string" where
  "py_replace old new s =
     (if old = [] then new @ concat (map (\<lambda>c. c # new) s)
      else if s = [] then []
      else if startswith s old then new @ py_replace old new (drop (length old) s)
      else hd s # py_replace old new (tl s))"
  by pat_completeness auto
termination
  by (relation "measure (\<lambda>(old, new, s). length s)") auto

text \<open>\<open>str(n)\<close> for a Python int.\<close>

definition digit_char :: "nat \<Rightarrow> char" where
  "digit_char d = char_of (48 + d)"

fun str_nat :: "nat \<Rightarrow> string" where
  "str_nat n = (if n < 10 then [digit_char n] else str_nat (n div 10) @ [digit_char (n mod 10)])"

definition py_str :: "int \<Rightarrow> string" where
  "py_str i = (if i < 0 then CHR ''-'' # str_nat (nat (- i)) else str_nat (nat i))"

text \<open>
  A Python \<open>dict\<close> keeps its keys in insertion order, and assigning to a key that is
  present keeps the key's position.  It is modelled as an association list.
\<close>

type_synonym ('k, 'v) dict = "('k \<times> 'v) list"

fun dict_set :: "('k, 'v) dict \<Rightarrow> 'k \<Rightarrow> 'v \<Rightarrow> ('k, 'v) dict" where
  "dict_set [] k v = [(k, v)]"
| "dict_set ((k', v') # d) k v =
     (if k' = k then (k', v) # d else (k', v') # dict_set d k v)"

definition dict_get :: "('k, 'v) dict \<Rightarrow> 'k \<Rightarrow> 'v \<Rightarrow> 'v" where
  "dict_get d k dflt = (case map_of d k of None \<Rightarrow> dflt | Some v \<Rightarrow> v)"

definition dict_contains :: "('k, 'v) dict \<Rightarrow> 'k \<Rightarrow> bool" where
  "dict_contains d k = (map_of d k \<noteq> None)"

definition dict_values :: "('k, 'v) dict \<Rightarrow> 'v list" where
  "dict_values d = map snd d"

section \<open>The paper model (models/paper.py)\<close>

datatype SectionType =
    ABSTRACT | INTRODUCTION | LITERATURE_REVIEW | THEORETICAL_FRAMEWORK | METHODOLOGY
  | ANALYSIS | DISCUSSION | CONCLUSION | REFERENCES

text \<open>The members in definition order, as \<open>for section_type in SectionType\<close> visits them.\<close>

definition all_section_types :: "SectionType list" where
  "all_section_types =
     [ABSTRACT, INTRODUCTION, LITERATURE_REVIEW, THEORETICAL_FRAMEWORK, METHODOLOGY,
      ANALYSIS, DISCUSSION, CONCLUSION, REFERENCES]"

fun section_value :: "SectionType \<Rightarrow> string" where
  "section_value ABSTRACT = ''abstract''"
| "section_value INTRODUCTION = ''introduction''"
| "section_value LITERATURE_REVIEW = ''literature_review''"
| "section_value THEORETICAL_FRAMEWORK = ''theoretical_framework''"
| "section_value METHODOLOGY = ''methodology''"
| "section_value ANALYSIS = ''analysis''"
| "section_value DISCUSSION = ''discussion''"
| "section_value CONCLUSION = ''conclusion''"
| "section_value REFERENCES = ''references''"

text \<open>\<open>SectionType(s)\<close>: the member whose value is \<open>s\<close>; \<open>None\<close> stands for the
  \<open>ValueError\<close> that the enum lookup raises on any other string.\<close>

definition SectionType_of :: "string \<Rightarrow> SectionType option" where
  "SectionType_of s = find (\<lambda>t. section_value t = s) all_section_types"

datatype DraftStatus = DRAFT | IN_REVIEW | APPROVED

text \<open>
  \<open>PaperDraft\<close>.  The identifiers are abstract numbers; the two timestamps
  (\<open>created_at\<close>, \<open>updated_at\<close>) are clock readings that nothing reads back and are left
  out.
\<close>

record PaperDraft =
  id_draft :: nat
  version :: int
  sections :: "(string, string) dict"
  word_count :: int
  status :: DraftStatus
  review_cycle :: int

definition get_section :: "PaperDraft \<Rightarrow> SectionType \<Rightarrow> string" where
  "get_section d t = dict_get (sections d) (section_value t) []"

definition update_word_count :: "PaperDraft \<Rightarrow> PaperDraft" where
  "update_word_count d =
     d\<lparr>word_count := (\<Sum>content \<leftarrow> dict_values (sections d). int (length (py_split content)))\<rparr>"

definition set_section :: "PaperDraft \<Rightarrow> SectionType \<Rightarrow> string \<Rightarrow> PaperDraft" where
  "set_section d t content =
     update_word_count (d\<lparr>sections := dict_set (sections d) (section_value t) content\<rparr>)"

section \<open>The review model (models/review.py)\<close>

datatype IssueType =
    MISSING_CITATION | INCONSISTENCY | VAGUE_CLAIM | FORMAT_ERROR | STYLE_ISSUE
  | GRAMMAR_ERROR | LOGIC_ERROR | INCOMPLETE_ARGUMENT

datatype IssueSeverity = CRITICAL | MAJOR | MINOR

record IssueLocation =
  section_name :: string
  paragraph_no :: int
  text_excerpt :: string

text \<open>
  \<open>ReviewIssue\<close> and \<open>ReviewFeedback\<close>.  Their \<open>id\<close> (a fresh \<open>uuid4()\<close>) and
  \<open>created_at\<close> fields are left out: no code path reads them.  The identity of an issue
  object is its position in the \<open>issues\<close> list of the feedback that owns it.
\<close>

record ReviewIssue =
  issue_type :: IssueType
  severity :: IssueSeverity
  location :: IssueLocation
  description :: string
  suggested_fix :: string
  resolved :: bool

record ReviewFeedback =
  draft_id :: "nat option"
  cycle :: int
  issues :: "ReviewIssue list"
  overall_assessment :: string
  approved :: bool

definition has_critical_issues :: "ReviewFeedback \<Rightarrow> bool" where
  "has_critical_issues fb = list_ex (\<lambda>i. severity i = CRITICAL \<and> \<not> resolved i) (issues fb)"

section \<open>Agents: results, log, language model (agents/base.py)\<close>

text \<open>
  The exceptions of the model are those derived from \<open>Exception\<close>: \<open>ValueError\<close> (with
  its subclasses), \<open>AttributeError\<close>, and \<open>OtherError\<close> for every other class.  An
  exception derived from \<open>BaseException\<close> alone, such as a cancellation, ends the whole
  run and is not modelled; \<open>BaseAgent.generate\<close> would let it pass without a log line.
\<close>

datatype py_exn = ValueError | AttributeError | OtherError

text \<open>\<open>AgentResult\<close>: the three fields the callers read.  The payload \<open>data\<close> is a
  dictionary in the source; each operation has its own record of keys here.\<close>

record 'd AgentResult =
  success :: bool
  data :: "'d option"
  error :: "string option"

text \<open>
  The prompts sent to the language model.  A prompt of the source is a fixed template
  with values interpolated; the model keeps the template's identity and the interpolated
  values, in the order of the template:
  \<^item> \<open>ReviewSectionPrompt t content cycle\<close>: the prompt of \<open>_review_section\<close>, with
    \<open>content\<close> already cut to 5000 characters;
  \<^item> \<open>ConsistencyPrompt abstract intro conclusion\<close>: the prompt of \<open>_check_consistency\<close>;
  \<^item> \<open>EditSectionPrompt issues content\<close>: the prompt of \<open>_edit_section\<close>, which lists the
    issues as \<open>ISSUE 1\<close>, \<open>ISSUE 2\<close>, ... in the order of the list.
\<close>

datatype prompt =
    ReviewSectionPrompt SectionType string int
  | ConsistencyPrompt string string string
  | EditSectionPrompt "ReviewIssue list" string


datatype log_entry =
    StartingReviewCycle int
  | FirstCycleNoApproval
  | PerformingFinalReview int
  | EditingIssues nat SectionType
  | ApplyingFixes nat
  | UnknownSectionType string
  | GenerationFailed py_exn
  | Progress string int string
  | MaxCyclesReached


text \<open>
  The language model is an arbitrary stateful oracle: from its state, a prompt and the
  token budget it gives the response text or raises, and a new state.  The world an
  agent acts on is the oracle's state and the log.  An operation returns its value or
  the exception it raises, together with the world it leaves behind.
\<close>

type_synonym 's llm = "'s \<Rightarrow> prompt \<Rightarrow> int \<Rightarrow> (py_exn + string) \<times> 's"

record 's world =
  llm_state :: 's
  log :: "log_entry list"

type_synonym ('a, 's) io = "'s world \<Rightarrow> (py_exn + 'a) \<times> 's world"

definition io_return :: "'a \<Rightarrow> ('a, 's) io" where
  "io_return x w = (Inr x, w)"

definition io_raise :: "py_exn \<Rightarrow> ('a, 's) io" where
  "io_raise e w = (Inl e, w)"

definition io_bind :: "('a, 's) io \<Rightarrow> ('a \<Rightarrow> ('b, 's) io) \<Rightarrow> ('b, 's) io" where
  "io_bind m f w = (case m w of (Inl e, w') \<Rightarrow> (Inl e, w') | (Inr x, w') \<Rightarrow> f x w')"

definition io_log :: "log_entry \<Rightarrow> (unit, 's) io" where
  "io_log e w = (Inr (), w\<lparr>log := log w @ [e]\<rparr>)"

text \<open>\<open>BaseAgent.generate\<close>: one call of the model; a failure is logged and raised again.\<close>

definition generate :: "'s llm \<Rightarrow> prompt \<Rightarrow> int \<Rightarrow> (string, 's) io" where
  "generate llm p max_tokens w =
     (case llm (llm_state w) p max_tokens of
        (Inr response, s') \<Rightarrow> (Inr response, w\<lparr>llm_state := s'\<rparr>)
      | (Inl e, s') \<Rightarrow> (Inl e, w\<lparr>llm_state := s', log := log w @ [GenerationFailed e]\<rparr>))"

section \<open>The reviewer (agents/reviewer.py)\<close>

definition category_map :: "(string, IssueType) dict" where
  "category_map =
     [(''MISSING_CITATION'', MISSING_CITATION),
      (''INCONSISTENCY'', INCONSISTENCY),
      (''VAGUE_CLAIM'', VAGUE_CLAIM),
      (''FORMAT_ERROR'', FORMAT_ERROR),
      (''STYLE_ISSUE'', STYLE_ISSUE),
      (''GRAMMAR_ERROR'', GRAMMAR_ERROR),
      (''LOGIC_ERROR'', LOGIC_ERROR),
      (''INCOMPLETE_ARGUMENT'', INCOMPLETE_ARGUMENT)]"

definition severity_map :: "(string, IssueSeverity) dict" where
  "severity_map = [(''CRITICAL'', CRITICAL), (''MAJOR'', MAJOR), (''MINOR'', MINOR)]"

definition create_issue :: "(string, string) dict \<Rightarrow> SectionType \<Rightarrow> ReviewIssue" where
  "create_issue dat section_type =
     \<lparr>issue_type = dict_get category_map (dict_get dat ''category'' []) VAGUE_CLAIM,
      severity = dict_get severity_map (dict_get dat ''severity'' ''MINOR'') MINOR,
      location = \<lparr>section_name = section_value section_type, paragraph_no = 0,
                  text_excerpt = dict_get dat ''location'' []\<rparr>,
      description = dict_get dat ''description'' [],
      suggested_fix = dict_get dat ''suggestion'' [],
      resolved = False\<rparr>"

text \<open>One turn of the loop over the lines of a response in \<open>_review_section\<close>: \<open>cur\<close>
  is \<open>current_issue\<close>, \<open>acc\<close> the list \<open>issues\<close>.\<close>

definition parse_line ::
  "SectionType \<Rightarrow> string \<Rightarrow> (string, string) dict \<times> ReviewIssue list
     \<Rightarrow> (string, string) dict \<times> ReviewIssue list" where
  "parse_line t l st =
     (case st of (cur, acc) \<Rightarrow>
      let line = py_strip l in
      if startswith line ''ISSUE:'' then
        ([(''category'', py_strip (py_replace ''ISSUE:'' [] line))],
         (if cur \<noteq> [] then acc @ [create_issue cur t] else acc))
      else if startswith line ''SEVERITY:'' then
        (dict_set cur ''severity'' (py_strip (py_replace ''SEVERITY:'' [] line)), acc)
      else if startswith line ''LOCATION:'' then
        (dict_set cur ''location'' (py_strip (py_replace ''LOCATION:'' [] line)), acc)
      else if startswith line ''DESCRIPTION:'' then
        (dict_set cur ''description'' (py_strip (py_replace ''DESCRIPTION:'' [] line)), acc)
      else if startswith line ''SUGGESTION:'' then
        (dict_set cur ''suggestion'' (py_strip (py_replace ''SUGGESTION:'' [] line)), acc)
      else (cur, acc))"

fun parse_lines ::
  "SectionType \<Rightarrow> string list \<Rightarrow> (string, string) dict \<times> ReviewIssue list
     \<Rightarrow> (string, string) dict \<times> ReviewIssue list" where
  "parse_lines t [] st = st"
| "parse_lines t (l # ls) st = parse_lines t ls (parse_line t l st)"

text \<open>The part of \<open>_review_section\<close> after the model has answered.\<close>

definition parse_section_response :: "string \<Rightarrow> SectionType \<Rightarrow> ReviewIssue list" where
  "parse_section_response response section_type =
     (if \<not> py_in ''NO_ISSUES'' response then
        (case parse_lines section_type (split_on CHR ''\<newline>'' response) ([], []) of
           (cur, acc) \<Rightarrow> if cur \<noteq> [] then acc @ [create_issue cur section_type] else acc)
      else [])"

definition review_section ::
  "'s llm \<Rightarrow> SectionType \<Rightarrow> string \<Rightarrow> int \<Rightarrow> (ReviewIssue list, 's) io" where
  "review_section llm section_type content c =
     io_bind (generate llm (ReviewSectionPrompt section_type (take 5000 content) c) 2000)
       (\<lambda>response. io_return (parse_section_response response section_type))"

definition consistency_issue :: "string \<Rightarrow> ReviewIssue" where
  "consistency_issue line =
     \<lparr>issue_type = INCONSISTENCY, severity = MAJOR,
      location = \<lparr>section_name = ''cross-section'', paragraph_no = 0, text_excerpt = []\<rparr>,
      description = py_strip (py_replace ''INCONSISTENCY:'' [] line),
      suggested_fix = [], resolved = False\<rparr>"

definition parse_consistency_response :: "string \<Rightarrow> ReviewIssue list" where
  "parse_consistency_response response =
     (if py_in ''INCONSISTENCY:'' response then
        map consistency_issue
          (filter (\<lambda>line. startswith line ''INCONSISTENCY:'') (split_on CHR ''\<newline>'' response))
      else [])"

definition check_consistency :: "'s llm \<Rightarrow> PaperDraft \<Rightarrow> (ReviewIssue list, 's) io" where
  "check_consistency llm d =
     (let intro = take 1000 (get_section d INTRODUCTION);
          conclusion = take 1000 (get_section d CONCLUSION);
          abstract = get_section d ABSTRACT
      in io_bind (generate llm (ConsistencyPrompt abstract intro conclusion) 1000)
           (\<lambda>response. io_return (parse_consistency_response response)))"

definition count_severity :: "IssueSeverity \<Rightarrow> ReviewIssue list \<Rightarrow> nat" where
  "count_severity s is = length (filter (\<lambda>i. severity i = s) is)"

definition generate_assessment :: "PaperDraft \<Rightarrow> ReviewIssue list \<Rightarrow> int \<Rightarrow> string" where
  "generate_assessment d is c =
     (let critical = count_severity CRITICAL is;
          major = count_severity MAJOR is;
          minor = count_severity MINOR is;
          assessment =
            ''Review Cycle '' @ py_str c @ '' Assessment:\<newline>\<newline>Total Issues Found: ''
            @ py_str (int (length is)) @ ''\<newline>- Critical: '' @ py_str (int critical)
            @ ''\<newline>- Major: '' @ py_str (int major)
            @ ''\<newline>- Minor: '' @ py_str (int minor) @ ''\<newline>\<newline>''
      in if c = 1 then
           assessment @ ''This is the first review cycle. The paper requires revisions before it can be approved. ''
         else if critical > 0 then
           assessment @ ''The paper has critical issues that must be addressed before approval. ''
         else if major > 0 then
           assessment @ ''The paper has major issues that should be addressed. ''
         else
           assessment @ ''The paper is nearing publication readiness with only minor issues remaining. '')"

text \<open>The payload of a review result (the keys of the \<open>data\<close> dictionary).\<close>

record ReviewData =
  feedback :: ReviewFeedback
  issue_count :: nat
  critical_count :: nat
  major_count :: nat
  minor_count :: nat
  approved_key :: bool
  cycle_key :: int

text \<open>The loop \<open>for section_type in SectionType\<close> of \<open>_review\<close>: the sections with
  content are reviewed in turn and their issues appended.\<close>

fun review_sections ::
  "'s llm \<Rightarrow> PaperDraft \<Rightarrow> int \<Rightarrow> SectionType list \<Rightarrow> ReviewIssue list
     \<Rightarrow> (ReviewIssue list, 's) io" where
  "review_sections llm d c [] acc w = (Inr acc, w)"
| "review_sections llm d c (t # ts) acc w =
     (let content = get_section d t in
      if content \<noteq> [] then
        (case review_section llm t content c w of
           (Inl e, w') \<Rightarrow> (Inl e, w')
         | (Inr section_issues, w') \<Rightarrow> review_sections llm d c ts (acc @ section_issues) w')
      else review_sections llm d c ts acc w)"

text \<open>\<open>_review\<close>.  The draft is mutated (\<open>review_cycle\<close>), so it is returned with the
  result.\<close>

definition review ::
  "'s llm \<Rightarrow> PaperDraft \<Rightarrow> int \<Rightarrow> (ReviewData AgentResult \<times> PaperDraft, 's) io" where
  "review llm d c =
     io_bind (io_log (StartingReviewCycle c)) (\<lambda>_.
     io_bind (review_sections llm d c all_section_types []) (\<lambda>section_issues.
     io_bind (check_consistency llm d) (\<lambda>consistency_issues.
       let is = section_issues @ consistency_issues;
           fb = \<lparr>draft_id = Some (id_draft d), cycle = c, issues = is,
                 overall_assessment = generate_assessment d is c, approved = False\<rparr>
       in io_bind
            (if c < 2 then
               io_bind (io_log FirstCycleNoApproval) (\<lambda>_. io_return (fb\<lparr>approved := False\<rparr>))
             else
               (let critical_major =
                      filter (\<lambda>i. severity i \<in> set [CRITICAL, MAJOR] \<and> \<not> resolved i) (issues fb)
                in io_return (fb\<lparr>approved := (length critical_major = 0)\<rparr>)))
            (\<lambda>fb'. io_return
               (\<lparr>success = True,
                 data = Some \<lparr>feedback = fb', issue_count = length (issues fb'),
                              critical_count = count_severity CRITICAL (issues fb'),
                              major_count = count_severity MAJOR (issues fb'),
                              minor_count = count_severity MINOR (issues fb'),
                              approved_key = approved fb', cycle_key = c\<rparr>,
                 error = None\<rparr>,
                d\<lparr>review_cycle := c\<rparr>)))))"

text \<open>\<open>_check_resolved_issues\<close>.  The issues of the earlier feedback are mutated, so the
  feedback is returned with the result.\<close>

definition section_content_of :: "PaperDraft \<Rightarrow> ReviewIssue \<Rightarrow> string" where
  "section_content_of d issue =
     (if section_name (location issue) \<in> set (map section_value all_section_types)
      then (case SectionType_of (section_name (location issue)) of
              Some t \<Rightarrow> get_section d t
            | None \<Rightarrow> [])
      else [])"

definition issue_now_absent :: "PaperDraft \<Rightarrow> ReviewIssue \<Rightarrow> bool" where
  "issue_now_absent d issue =
     (text_excerpt (location issue) \<noteq> []
      \<and> \<not> py_in (text_excerpt (location issue)) (section_content_of d issue))"

record CheckData =
  total_issues :: nat
  resolved_key :: nat
  remaining :: int

definition check_resolved_issues ::
  "PaperDraft \<Rightarrow> ReviewFeedback \<Rightarrow> CheckData AgentResult \<times> ReviewFeedback" where
  "check_resolved_issues d previous_feedback =
     (let is' = map (\<lambda>issue. if issue_now_absent d issue then issue\<lparr>resolved := True\<rparr> else issue)
                    (issues previous_feedback);
          resolved_count = length (filter (issue_now_absent d) (issues previous_feedback))
      in (\<lparr>success = True,
           data = Some \<lparr>total_issues = length (issues previous_feedback),
                        resolved_key = resolved_count,
                        remaining = int (length (issues previous_feedback)) - int resolved_count\<rparr>,
           error = None\<rparr>,
          previous_feedback\<lparr>issues := is'\<rparr>))"

text \<open>\<open>_final_review\<close>\<close>

definition final_review ::
  "'s llm \<Rightarrow> PaperDraft \<Rightarrow> int \<Rightarrow> (ReviewData AgentResult \<times> PaperDraft, 's) io" where
  "final_review llm d c =
     io_bind (io_log (PerformingFinalReview c)) (\<lambda>_.
     io_bind (review llm d c) (\<lambda>(result, d').
       (case data result of
          Some dat \<Rightarrow>
            if success result then
              (let fb = feedback dat;
                   fb' = (if \<not> has_critical_issues fb \<and> c \<ge> 2
                          then fb\<lparr>approved := True,
                                  overall_assessment := overall_assessment fb
                                    @ ''\<newline>\<newline>FINAL REVIEW: Paper approved for finalization.''\<rparr>
                          else fb)
               in io_return (result\<lparr>data := Some (dat\<lparr>feedback := fb', approved_key := approved fb'\<rparr>)\<rparr>, d'))
            else io_return (result, d')
        | None \<Rightarrow> io_return (result, d'))))"

section \<open>The editor (agents/editor.py)\<close>

record EditSectionData =
  section_key :: string
  issues_fixed_key :: nat
  word_count_key :: nat

text \<open>\<open>for issue in issues: issue.resolved = True\<close>, on the issue objects at the
  positions \<open>idxs\<close> of the feedback's list.\<close>

definition mark_resolved :: "nat list \<Rightarrow> ReviewIssue list \<Rightarrow> ReviewIssue list" where
  "mark_resolved idxs is = fold (\<lambda>i xs. xs[i := (xs ! i)\<lparr>resolved := True\<rparr>]) idxs is"

text \<open>
  \<open>_edit_section\<close>.  The issues it is given are references to objects of the feedback's
  list; here they are the positions \<open>idxs\<close> in \<open>is\<close>.  The draft and the issues are
  mutated, so both are returned with the result.
\<close>

definition edit_section ::
  "'s llm \<Rightarrow> PaperDraft \<Rightarrow> SectionType \<Rightarrow> nat list \<Rightarrow> ReviewIssue list
     \<Rightarrow> (EditSectionData AgentResult \<times> PaperDraft \<times> ReviewIssue list, 's) io" where
  "edit_section llm d section_type idxs is =
     io_bind (io_log (EditingIssues (length idxs) section_type)) (\<lambda>_.
       let content = get_section d section_type in
       if content = [] then
         io_return
           (\<lparr>success = False, data = None,
             error = Some (''Section '' @ section_value section_type @ '' is empty'')\<rparr>, d, is)
       else
         io_bind
           (generate llm (EditSectionPrompt (map (\<lambda>i. is ! i) idxs) content)
              (int (length (py_split content)) * 2))
           (\<lambda>edited_content.
              io_return
                (\<lparr>success = True,
                  data = Some \<lparr>section_key = section_value section_type,
                               issues_fixed_key = length idxs,
                               word_count_key = length (py_split edited_content)\<rparr>,
                  error = None\<rparr>,
                 set_section d section_type edited_content,
                 mark_resolved idxs is)))"

text \<open>The grouping loop of \<open>_apply_all_fixes\<close>: \<open>issues_by_section\<close> maps a section
  string to the unresolved issues located there, in the order met.\<close>

definition group_step ::
  "ReviewIssue list \<Rightarrow> nat \<Rightarrow> (string, nat list) dict \<Rightarrow> (string, nat list) dict" where
  "group_step is i g =
     (if \<not> resolved (is ! i) then
        (let s = section_name (location (is ! i));
             g' = (if \<not> dict_contains g s then dict_set g s [] else g)
         in dict_set g' s (dict_get g' s [] @ [i]))
      else g)"

definition group_issues :: "ReviewIssue list \<Rightarrow> (string, nat list) dict" where
  "group_issues is = fold (group_step is) [0..<length is] []"

text \<open>The sort key.  The source's default \<open>3\<close> for a severity outside the enum cannot
  occur.  \<open>list.sort\<close> is stable, as \<open>sort_key\<close> is.\<close>

fun severity_rank :: "IssueSeverity \<Rightarrow> nat" where
  "severity_rank CRITICAL = 0"
| "severity_rank MAJOR = 1"
| "severity_rank MINOR = 2"

definition sort_by_severity :: "ReviewIssue list \<Rightarrow> nat list \<Rightarrow> nat list" where
  "sort_by_severity is idxs = sort_key (\<lambda>i. severity_rank (severity (is ! i))) idxs"

definition issues_by_section :: "ReviewIssue list \<Rightarrow> (string, nat list) dict" where
  "issues_by_section is = map (\<lambda>(s, idxs). (s, sort_by_severity is idxs)) (group_issues is)"

text \<open>The state of the editing loop: the draft, the issues, \<open>sections_edited\<close> and
  \<open>total_issues_fixed\<close>.\<close>

type_synonym edit_state = "PaperDraft \<times> ReviewIssue list \<times> string list \<times> nat"

text \<open>One turn of the editing loop: the body of the \<open>try\<close> and its \<open>except ValueError\<close>.\<close>

definition edit_group ::
  "'s llm \<Rightarrow> string \<times> nat list \<Rightarrow> edit_state \<Rightarrow> (edit_state, 's) io" where
  "edit_group llm grp st w =
     (case grp of (section_str, idxs) \<Rightarrow>
      case st of (d, is, sections_edited, total_issues_fixed) \<Rightarrow>
      (case SectionType_of section_str of
         None \<Rightarrow> io_bind (io_log (UnknownSectionType section_str)) (\<lambda>_. io_return st) w
       | Some section_type \<Rightarrow>
           (case edit_section llm d section_type idxs is w of
              (Inl ValueError, w') \<Rightarrow>
                io_bind (io_log (UnknownSectionType section_str)) (\<lambda>_. io_return st) w'
            | (Inl e, w') \<Rightarrow> (Inl e, w')
            | (Inr (result, d', is'), w') \<Rightarrow>
                if success result
                then (Inr (d', is', sections_edited @ [section_str],
                           total_issues_fixed + length idxs), w')
                else (Inr (d', is', sections_edited, total_issues_fixed), w'))))"

fun edit_groups ::
  "'s llm \<Rightarrow> (string \<times> nat list) list \<Rightarrow> edit_state \<Rightarrow> (edit_state, 's) io" where
  "edit_groups llm [] st w = (Inr st, w)"
| "edit_groups llm (grp # grps) st w =
     (case edit_group llm grp st w of
        (Inl e, w') \<Rightarrow> (Inl e, w')
      | (Inr st', w') \<Rightarrow> edit_groups llm grps st' w')"

record EditData =
  draft_key :: PaperDraft
  sections_edited_key :: "string list"
  issues_fixed :: nat
  draft_version :: int
  ready_for_review :: bool

text \<open>\<open>_apply_all_fixes\<close>.  The draft and the feedback are mutated, so both are returned
  with the result.\<close>

definition apply_all_fixes ::
  "'s llm \<Rightarrow> PaperDraft \<Rightarrow> ReviewFeedback
     \<Rightarrow> (EditData AgentResult \<times> PaperDraft \<times> ReviewFeedback, 's) io" where
  "apply_all_fixes llm d fb =
     io_bind (io_log (ApplyingFixes (length (issues fb)))) (\<lambda>_.
     io_bind (edit_groups llm (issues_by_section (issues fb)) (d, issues fb, [], 0))
       (\<lambda>(d1, is1, sections_edited, total_issues_fixed).
          let d2 = d1\<lparr>version := version d1 + 1\<rparr> in
          io_return
            (\<lparr>success = True,
              data = Some \<lparr>draft_key = d2, sections_edited_key = sections_edited,
                           issues_fixed = total_issues_fixed, draft_version = version d2,
                           ready_for_review = True\<rparr>,
              error = None\<rparr>,
             d2, fb\<lparr>issues := is1\<rparr>)))"

section \<open>The review-edit loop (orchestrator.py)\<close>

datatype WorkflowStage =
    INIT | TOPIC_REFINEMENT | SOURCE_DISCOVERY | SOURCE_SUMMARIZATION | RESEARCH_PLANNING
  | BODY_WRITING | INTRO_CONCLUSION | REVIEW | EDITING | FINAL_REVIEW | EXPORT | COMPLETED
  | FAILED

text \<open>
  \<open>WorkflowState\<close>: the fields the loop touches.  \<open>progress_percentage\<close> is the field of
  the session that \<open>update_stage\<close> writes; the loop only writes whole numbers to it.
\<close>

record WorkflowState =
  current_stage :: WorkflowStage
  progress_percentage :: int
  state_draft :: "PaperDraft option"
  state_feedback :: "ReviewFeedback option"
  state_review_cycle :: int

definition update_stage :: "WorkflowState \<Rightarrow> WorkflowStage \<Rightarrow> int \<Rightarrow> WorkflowState" where
  "update_stage st stage progress = st\<lparr>current_stage := stage, progress_percentage := progress\<rparr>"

text \<open>\<open>_report_progress\<close>: the line written to the log (no progress callback is set).\<close>

definition report_progress :: "string \<Rightarrow> int \<Rightarrow> string \<Rightarrow> (unit, 's) io" where
  "report_progress stage progress message = io_log (Progress stage progress message)"

text \<open>\<open>self._reviewer.execute(action="review", draft=..., cycle=...)\<close>: the dispatch to
  \<open>_review\<close>.  On a missing draft \<open>_review\<close> logs its first line and then fails on
  \<open>draft.id\<close>.\<close>

definition reviewer_execute_review ::
  "'s llm \<Rightarrow> PaperDraft option \<Rightarrow> int \<Rightarrow> (ReviewData AgentResult \<times> PaperDraft, 's) io" where
  "reviewer_execute_review llm dopt c =
     (case dopt of
        None \<Rightarrow> io_bind (io_log (StartingReviewCycle c)) (\<lambda>_. io_raise AttributeError)
      | Some d \<Rightarrow> review llm d c)"

text \<open>The part of the loop body after an unapproved review: the edit pass.\<close>

definition edit_pass ::
  "'s llm \<Rightarrow> int \<Rightarrow> PaperDraft \<Rightarrow> ReviewFeedback \<Rightarrow> WorkflowState \<Rightarrow> (WorkflowState, 's) io" where
  "edit_pass llm c d fb st =
     (let st1 = update_stage st EDITING (75 + c * 5) in
      io_bind (report_progress ''editing'' (75 + c * 5) (''Editing cycle '' @ py_str c)) (\<lambda>_.
      io_bind (apply_all_fixes llm d fb) (\<lambda>(edit_result, d', fb').
        let st2 = st1\<lparr>state_draft := Some d', state_feedback := Some fb'\<rparr> in
        if success edit_result then
          (case data edit_result of
             None \<Rightarrow> io_raise AttributeError
           | Some dat \<Rightarrow>
               io_bind
                 (report_progress ''editing'' (78 + c * 5)
                    (''Fixed '' @ py_str (int (issues_fixed dat)) @ '' issues''))
                 (\<lambda>_. io_return (st2\<lparr>state_draft := Some (draft_key dat)\<rparr>)))
        else io_return st2)))"

text \<open>One turn of the loop \<open>for cycle in range(1, max_cycles + 1)\<close>.  The Boolean says
  whether the turn left the loop through \<open>break\<close>.\<close>

definition review_edit_cycle ::
  "'s llm \<Rightarrow> int \<Rightarrow> int \<Rightarrow> WorkflowState \<Rightarrow> (bool \<times> WorkflowState, 's) io" where
  "review_edit_cycle llm min_cycles c st =
     (let st1 = update_stage (st\<lparr>state_review_cycle := c\<rparr>) REVIEW (70 + c * 5) in
      io_bind (report_progress ''review'' (70 + c * 5) (''Review cycle '' @ py_str c)) (\<lambda>_.
      io_bind (reviewer_execute_review llm (state_draft st1) c) (\<lambda>(review_result, d).
        let st2 = st1\<lparr>state_draft := Some d\<rparr> in
        if success review_result then
          (case data review_result of
             None \<Rightarrow> io_raise AttributeError
           | Some dat \<Rightarrow>
               (let st3 = st2\<lparr>state_feedback := Some (feedback dat)\<rparr> in
                io_bind
                  (report_progress ''review'' (72 + c * 5)
                     (''Found '' @ py_str (int (issue_count dat)) @ '' issues''))
                  (\<lambda>_.
                     if approved_key dat \<and> c \<ge> min_cycles then
                       io_bind (report_progress ''review'' 90 ''Paper approved'')
                         (\<lambda>_. io_return (True, st3))
                     else
                       io_bind (edit_pass llm c d (feedback dat) st3)
                         (\<lambda>st4. io_return (False, st4)))))
        else io_return (False, st2))))"

fun review_edit_cycles ::
  "'s llm \<Rightarrow> int \<Rightarrow> int list \<Rightarrow> WorkflowState \<Rightarrow> (bool \<times> WorkflowState, 's) io" where
  "review_edit_cycles llm min_cycles [] st w = (Inr (False, st), w)"
| "review_edit_cycles llm min_cycles (c # cs) st w =
     (case review_edit_cycle llm min_cycles c st w of
        (Inl e, w') \<Rightarrow> (Inl e, w')
      | (Inr (True, st'), w') \<Rightarrow> (Inr (True, st'), w')
      | (Inr (False, st'), w') \<Rightarrow> review_edit_cycles llm min_cycles cs st' w')"

text \<open>\<open>_stage_review_edit_loop\<close>, with \<open>max_cycles\<close> and \<open>min_cycles\<close> as read from the
  configuration.\<close>

definition stage_review_edit_loop ::
  "'s llm \<Rightarrow> int \<Rightarrow> int \<Rightarrow> WorkflowState \<Rightarrow> (WorkflowState, 's) io" where
  "stage_review_edit_loop llm max_cycles min_cycles st =
     io_bind (review_edit_cycles llm min_cycles [1..max_cycles] st) (\<lambda>(broke, st').
       if (case state_feedback st' of None \<Rightarrow> True | Some fb \<Rightarrow> \<not> approved fb)
       then io_bind (io_log MaxCyclesReached) (\<lambda>_. io_return st')
       else io_return st')"

section \<open>Assumptions on the language model, and example inputs\<close>

text \<open>A language model that answers every call (its \<open>generate\<close> never raises).\<close>

definition llm_never_raises :: "'s llm \<Rightarrow> bool" where
  "llm_never_raises llm = (\<forall>s p m. \<exists>response s'. llm s p m = (Inr response, s'))"

text \<open>A model that finds nothing to criticise.\<close>

definition llm_no_issues :: "unit llm" where
  "llm_no_issues s p m = (Inr ''NO_ISSUES: This section meets quality standards.'', s)"

text \<open>A model that reports one major issue in every section it is shown, finds the
  sections consistent, and answers an edit request with a fixed text.\<close>

definition llm_one_major :: "unit llm" where
  "llm_one_major s p m =
     (case p of
        ReviewSectionPrompt t content c \<Rightarrow>
          (Inr ''ISSUE: VAGUE_CLAIM\<newline>SEVERITY: MAJOR\<newline>LOCATION: X\<newline>DESCRIPTION: unclear\<newline>SUGGESTION: clarify'', s)
      | ConsistencyPrompt a i c \<Rightarrow> (Inr ''CONSISTENT: Sections are aligned.'', s)
      | EditSectionPrompt is content \<Rightarrow> (Inr ''Z is clear'', s))"

text \<open>A model that reports one critical issue in every section it is shown and finds
  the sections consistent.\<close>

definition llm_one_critical :: "unit llm" where
  "llm_one_critical s p m =
     (case p of
        ReviewSectionPrompt t content c \<Rightarrow>
          (Inr ''ISSUE: LOGIC_ERROR\<newline>SEVERITY: CRITICAL\<newline>LOCATION: X\<newline>DESCRIPTION: wrong\<newline>SUGGESTION: rework'', s)
      | ConsistencyPrompt a i c \<Rightarrow> (Inr ''CONSISTENT: Sections are aligned.'', s)
      | EditSectionPrompt is content \<Rightarrow> (Inr ''Z is clear'', s))"

definition example_draft :: PaperDraft where
  "example_draft =
     \<lparr>id_draft = 1, version = 1, sections = [(''introduction'', ''X''), (''conclusion'', ''Y'')],
      word_count = 2, status = DRAFT, review_cycle = 0\<rparr>"

definition world0 :: "unit world" where
  "world0 = \<lparr>llm_state = (), log = []\<rparr>"

text \<open>The specification's notion for the resolution check: the excerpt \<open>p\<close> is found
  verbatim in the text \<open>s\<close>.\<close>

definition found_verbatim :: "string \<Rightarrow> string \<Rightarrow> bool" where
  "found_verbatim p s = (\<exists>a b. s = a @ p @ b)"

text \<open>An unresolved issue with the given severity, section, excerpt and description.\<close>

definition mk_issue :: "IssueSeverity \<Rightarrow> string \<Rightarrow> string \<Rightarrow> string \<Rightarrow> ReviewIssue" where
  "mk_issue sev sec excerpt descr =
     \<lparr>issue_type = VAGUE_CLAIM, severity = sev,
      location = \<lparr>section_name = sec, paragraph_no = 0, text_excerpt = excerpt\<rparr>,
      description = descr, suggested_fix = [], resolved = False\<rparr>"

text \<open>A feedback on \<open>example_draft\<close>, whose introduction is the text \<open>X\<close>.\<close>

definition example_feedback :: ReviewFeedback where
  "example_feedback =
     \<lparr>draft_id = Some 1, cycle = 1,
      issues = [mk_issue MAJOR ''introduction'' ''X'' ''still there'',
                mk_issue MAJOR ''introduction'' ''W'' ''gone'',
                mk_issue MINOR ''introduction'' [] ''no excerpt'',
                mk_issue MAJOR ''cross-section'' ''X'' ''unknown section''],
      overall_assessment = [], approved = False\<rparr>"

text \<open>The field markers the reviewer's parser looks for at the start of a line.\<close>

definition field_markers :: "string list" where
  "field_markers = [''ISSUE:'', ''SEVERITY:'', ''LOCATION:'', ''DESCRIPTION:'', ''SUGGESTION:'']"

text \<open>A response with two issue blocks; the second has a category outside the taxonomy
  and a severity in lower case.\<close>

definition example_response :: string where
  "example_response =
     ''ISSUE: MISSING_CITATION\<newline>SEVERITY: CRITICAL\<newline>LOCATION: foo bar\<newline>DESCRIPTION: d1\<newline>SUGGESTION: s1\<newline>---\<newline>  ISSUE: BOGUS\<newline>SEVERITY: major\<newline>''"

text \<open>The positions of the unresolved issues located at the section string \<open>s\<close>, in
  the order of the feedback's list.\<close>

definition unresolved_in :: "ReviewIssue list \<Rightarrow> string \<Rightarrow> nat list" where
  "unresolved_in is s =
     filter (\<lambda>i. \<not> resolved (is ! i) \<and> section_name (location (is ! i)) = s) [0..<length is]"

text \<open>Four issues of one section, with severities minor, critical, major, minor.\<close>

definition example_issues :: "ReviewIssue list" where
  "example_issues =
     [mk_issue MINOR ''introduction'' ''a'' ''first minor'',
      mk_issue CRITICAL ''introduction'' ''b'' ''critical'',
      mk_issue MAJOR ''introduction'' ''c'' ''major'',
      mk_issue MINOR ''introduction'' ''d'' ''second minor'']"

text \<open>A model that keeps every prompt it is sent.\<close>

definition llm_recording :: "prompt list llm" where
  "llm_recording s p m = (Inr ''Z'', s @ [p])"

text \<open>A language model whose failures are all \<open>ValueError\<close>s (the only exception the
  editing loop catches).\<close>

definition llm_raises_at_most_ValueError :: "'s llm \<Rightarrow> bool" where
  "llm_raises_at_most_ValueError llm = (\<forall>s p m e s'. llm s p m = (Inl e, s') \<longrightarrow> e = ValueError)"

text \<open>The reviewer and editor invocations a log records, in order, and the warning of
  the loop: \<open>_review\<close> writes its first line exactly once per call, and so does
  \<open>_apply_all_fixes\<close>.\<close>

datatype call = ReviewCall int | EditCall | MaxCyclesWarning

fun calls :: "log_entry list \<Rightarrow> call list" where
  "calls [] = []"
| "calls (StartingReviewCycle c # es) = ReviewCall c # calls es"
| "calls (ApplyingFixes n # es) = EditCall # calls es"
| "calls (MaxCyclesReached # es) = MaxCyclesWarning # calls es"
| "calls (e # es) = calls es"

text \<open>The calls recorded between the world \<open>w\<close> and a later world \<open>w'\<close>.\<close>

definition calls_between :: "'s world \<Rightarrow> 's world \<Rightarrow> call list \<Rightarrow> bool" where
  "calls_between w w' cs = (\<exists>new. log w' = log w @ new \<and> calls new = cs)"

text \<open>The calls of complete cycles: a review and an edit pass for each cycle number.\<close>

definition cycle_calls :: "int list \<Rightarrow> call list" where
  "cycle_calls cs = concat (map (\<lambda>c. [ReviewCall c, EditCall]) cs)"

text \<open>The cycle numbers of the reviews among the calls.\<close>

fun review_numbers :: "call list \<Rightarrow> int list" where
  "review_numbers [] = []"
| "review_numbers (ReviewCall c # cs) = c # review_numbers cs"
| "review_numbers (x # cs) = review_numbers cs"

text \<open>The condition of the warning after the loop: no feedback, or one not approved.\<close>

definition unapproved :: "WorkflowState \<Rightarrow> bool" where
  "unapproved st = (case state_feedback st of None \<Rightarrow> True | Some fb \<Rightarrow> \<not> approved fb)"

text \<open>The workflow state at the start of the loop, holding \<open>example_draft\<close>.\<close>

definition example_state :: WorkflowState where
  "example_state =
     \<lparr>current_stage = INTRO_CONCLUSION, progress_percentage = 70,
      state_draft = Some example_draft, state_feedback = None, state_review_cycle = 0\<rparr>"

text \<open>
  The shape of a run of the stage with result \<open>r\<close>, recorded calls \<open>tr\<close> and \<open>k\<close>
  reviews, by the way it ends: the language model raised during cycle \<open>k\<close>; or the
  review of cycle \<open>k\<close> approved at or after the minimum and the loop was left; or all
  cycles ran, each with its edit pass, and the warning was written if the feedback kept
  is missing or not approved.
\<close>

definition run_shape ::
  "int \<Rightarrow> int \<Rightarrow> WorkflowState \<Rightarrow> (py_exn + WorkflowState) \<Rightarrow> call list \<Rightarrow> int \<Rightarrow> bool" where
  "run_shape max_cycles min_cycles st r tr k =
     ((\<exists>e. r = Inl e \<and> 1 \<le> k
          \<and> (tr = cycle_calls [1..k - 1] @ [ReviewCall k] \<or> tr = cycle_calls [1..k]))
      \<or> (\<exists>st' fb. r = Inr st' \<and> 1 \<le> k \<and> min_cycles \<le> k
            \<and> tr = cycle_calls [1..k - 1] @ [ReviewCall k]
            \<and> state_feedback st' = Some fb \<and> approved fb \<and> cycle fb = k
            \<and> state_review_cycle st' = k \<and> state_draft st' \<noteq> None)
      \<or> (\<exists>st'. r = Inr st' \<and> k = max 0 max_cycles
            \<and> tr = cycle_calls [1..max_cycles] @ (if unapproved st' then [MaxCyclesWarning] else [])
            \<and> (max_cycles < 1 \<longrightarrow> st' = st)
            \<and> (1 \<le> max_cycles \<longrightarrow>
                  (\<exists>fb. state_feedback st' = Some fb \<and> cycle fb = max_cycles
                       \<and> \<not> (approved fb \<and> min_cycles \<le> max_cycles))
                  \<and> state_review_cycle st' = max_cycles \<and> state_draft st' \<noteq> None)
            \<and> (1 \<le> max_cycles \<and> min_cycles \<le> max_cycles \<longrightarrow> unapproved st')))"

section \<open>Properties\<close>

lemma map_of_dict_set: "map_of (dict_set d k v) = (map_of d)(k \<mapsto> v)"
  by (induction d) (auto simp: fun_eq_iff)

lemma dict_get_dict_set:
  "dict_get (dict_set d k v) k' dflt = (if k' = k then v else dict_get d k' dflt)"
  by (simp add: dict_get_def map_of_dict_set)

lemma get_section_set_section:
  "get_section (set_section d t c) t' = (if t' = t then c else get_section d t')"
proof -
  have inj: "section_value t' = section_value t \<longleftrightarrow> t' = t"
    by (cases t; cases t'; simp)
  show ?thesis
    by (simp add: get_section_def set_section_def update_word_count_def dict_get_dict_set inj)
qed

text \<open>
  C5.  After \<open>set_section\<close> the stored word count is the sum, over every entry of the
  section dictionary as it now stands, of the number of words \<open>split()\<close> finds in the
  entry's text; and the entry just written holds the new text.
\<close>

theorem set_section_word_count:
  "word_count (set_section d t c) =
     (\<Sum>content \<leftarrow> dict_values (sections (set_section d t c)). int (length (py_split content)))
   \<and> get_section (set_section d t c) t = c"
  by (simp add: get_section_set_section) (simp add: set_section_def update_word_count_def)

subsection \<open>The monad\<close>

lemma io_bind_Inr: "m w = (Inr x, w1) \<Longrightarrow> io_bind m f w = f x w1"
  by (simp add: io_bind_def)

lemma io_bind_Inl: "m w = (Inl e, w1) \<Longrightarrow> io_bind m f w = (Inl e, w1)"
  by (simp add: io_bind_def)

subsection \<open>The reviewer's approval policy\<close>

lemma review_result:
  assumes "review llm d c w = (Inr (result, d'), w')"
  shows "\<exists>dat. data result = Some dat \<and> success result \<and> error result = None
           \<and> approved_key dat = approved (feedback dat)
           \<and> cycle (feedback dat) = c \<and> cycle_key dat = c
           \<and> draft_id (feedback dat) = Some (id_draft d)
           \<and> issue_count dat = length (issues (feedback dat))
           \<and> d' = d\<lparr>review_cycle := c\<rparr>
           \<and> approved (feedback dat) =
               (2 \<le> c \<and> \<not> list_ex (\<lambda>i. (severity i = CRITICAL \<or> severity i = MAJOR) \<and> \<not> resolved i)
                             (issues (feedback dat)))"
  using assms
  by (auto simp: review_def io_bind_def io_log_def io_return_def Let_def list_ex_iff filter_empty_conv
           split: prod.splits sum.splits if_splits)

lemma generate_total:
  "llm_never_raises llm \<Longrightarrow> \<exists>response w'. generate llm p m w = (Inr response, w')"
proof -
  assume "llm_never_raises llm"
  then obtain r s' where "llm (llm_state w) p m = (Inr r, s')"
    unfolding llm_never_raises_def by blast
  then show ?thesis by (simp add: generate_def)
qed

lemma review_section_total:
  "llm_never_raises llm \<Longrightarrow> \<exists>is w'. review_section llm t content c w = (Inr is, w')"
  using generate_total [of llm "ReviewSectionPrompt t (take 5000 content) c" 2000 w]
  by (auto simp: review_section_def io_bind_def io_return_def)

lemma review_sections_total:
  "llm_never_raises llm \<Longrightarrow> \<exists>is w'. review_sections llm d c ts acc w = (Inr is, w')"
proof (induction ts arbitrary: acc w)
  case Nil
  then show ?case by simp
next
  case (Cons t ts)
  show ?case
  proof (cases "get_section d t = []")
    case True
    then show ?thesis using Cons by simp
  next
    case False
    obtain is1 w1 where "review_section llm t (get_section d t) c w = (Inr is1, w1)"
      using review_section_total [OF Cons.prems] by blast
    then show ?thesis using False Cons.IH [OF Cons.prems] by simp
  qed
qed

lemma check_consistency_total:
  "llm_never_raises llm \<Longrightarrow> \<exists>is w'. check_consistency llm d w = (Inr is, w')"
proof -
  assume "llm_never_raises llm"
  from generate_total [OF this]
  obtain r w1 where
    "generate llm (ConsistencyPrompt (get_section d ABSTRACT) (take 1000 (get_section d INTRODUCTION))
        (take 1000 (get_section d CONCLUSION))) 1000 w = (Inr r, w1)"
    by blast
  then show ?thesis
    by (simp add: check_consistency_def Let_def io_bind_def io_return_def)
qed

lemma review_total:
  assumes "llm_never_raises llm"
  shows "\<exists>x w'. review llm d c w = (Inr x, w')"
proof -
  let ?w0 = "w\<lparr>log := log w @ [StartingReviewCycle c]\<rparr>"
  obtain is1 w1 where 1: "review_sections llm d c all_section_types [] ?w0 = (Inr is1, w1)"
    using review_sections_total [OF assms] by blast
  obtain is2 w2 where 2: "check_consistency llm d w1 = (Inr is2, w2)"
    using check_consistency_total [OF assms] by blast
  show ?thesis
    using 1 2 by (simp add: review_def io_bind_def io_log_def io_return_def Let_def)
qed

text \<open>
  C1.  A review returns whenever the language model answers every call.  The feedback it
  returns is never approved at a cycle number below 2, whatever issues were found, also
  none; from cycle 2 on it is approved exactly when no issue of the feedback is critical
  or major and unresolved.
\<close>

theorem review_approval_policy:
  "(llm_never_raises llm \<longrightarrow> (\<exists>x w'. review llm d c w = (Inr x, w')))
   \<and> (\<forall>result d' w'. review llm d c w = (Inr (result, d'), w') \<longrightarrow>
        (\<exists>dat. data result = Some dat
           \<and> approved_key dat = approved (feedback dat)
           \<and> (c < 2 \<longrightarrow> \<not> approved (feedback dat))
           \<and> (2 \<le> c \<longrightarrow> approved (feedback dat) =
                (\<not> list_ex (\<lambda>i. (severity i = CRITICAL \<or> severity i = MAJOR) \<and> \<not> resolved i)
                     (issues (feedback dat))))))"
proof (intro conjI allI impI)
  assume "llm_never_raises llm"
  then show "\<exists>x w'. review llm d c w = (Inr x, w')" by (rule review_total)
next
  fix result d' w'
  assume "review llm d c w = (Inr (result, d'), w')"
  from review_result [OF this] show "\<exists>dat. data result = Some dat
           \<and> approved_key dat = approved (feedback dat)
           \<and> (c < 2 \<longrightarrow> \<not> approved (feedback dat))
           \<and> (2 \<le> c \<longrightarrow> approved (feedback dat) =
                (\<not> list_ex (\<lambda>i. (severity i = CRITICAL \<or> severity i = MAJOR) \<and> \<not> resolved i)
                     (issues (feedback dat))))"
    by auto
qed

lemma review_no_issues_example: "(case review llm_no_issues example_draft 1 world0 of
          (Inr (res, d'), w') \<Rightarrow>
             (case data res of Some dat \<Rightarrow> issues (feedback dat) = [] | None \<Rightarrow> False)
        | (Inl e, w') \<Rightarrow> False)"
  by code_simp

theorem review_approval_policy_witness:
  "\<exists>result d' w' dat.
      review llm_no_issues example_draft 1 world0 = (Inr (result, d'), w')
      \<and> data result = Some dat \<and> issues (feedback dat) = [] \<and> \<not> approved (feedback dat)"
proof -
  have nr: "llm_never_raises llm_no_issues"
    by (simp add: llm_never_raises_def llm_no_issues_def)
  note pol = review_approval_policy [of llm_no_issues example_draft 1 world0]
  from pol nr obtain x w' where run0: "review llm_no_issues example_draft 1 world0 = (Inr x, w')"
    by blast
  obtain result d' where x: "x = (result, d')" by (cases x)
  from pol run0 x obtain dat where dat: "data result = Some dat" "\<not> approved (feedback dat)"
    by auto
  have "issues (feedback dat) = []"
    using review_no_issues_example run0 x dat by simp
  then show ?thesis using run0 x dat by blast
qed

subsection \<open>The final review\<close>

lemma final_review_result:
  assumes "final_review llm d c w = (Inr (result, d'), w')"
  shows "\<exists>result0 dat0 dat.
           review llm d c (w\<lparr>log := log w @ [PerformingFinalReview c]\<rparr>) = (Inr (result0, d'), w')
           \<and> data result0 = Some dat0 \<and> data result = Some dat
           \<and> issues (feedback dat) = issues (feedback dat0)
           \<and> approved_key dat = approved (feedback dat)
           \<and> approved (feedback dat) =
                (approved (feedback dat0) \<or> (\<not> has_critical_issues (feedback dat0) \<and> 2 \<le> c))"
proof -
  let ?w0 = "w\<lparr>log := log w @ [PerformingFinalReview c]\<rparr>"
  from assms obtain result0 d0 w0 where run0: "review llm d c ?w0 = (Inr (result0, d0), w0)"
    by (auto simp: final_review_def io_bind_def io_log_def split: prod.splits sum.splits)
  from review_result [OF run0] obtain dat0 where
    dat0: "data result0 = Some dat0" "success result0" by blast
  from assms run0 dat0 show ?thesis
    by (auto simp: final_review_def io_bind_def io_log_def io_return_def Let_def split: if_splits)
qed

lemma critical_major_imp_critical:
  "\<not> list_ex (\<lambda>i. (severity i = CRITICAL \<or> severity i = MAJOR) \<and> \<not> resolved i) is
     \<Longrightarrow> \<not> list_ex (\<lambda>i. severity i = CRITICAL \<and> \<not> resolved i) is"
  by (auto simp: list_ex_iff)

text \<open>
  C3.  A final review at cycle \<open>c\<close> runs the standard review and returns its feedback
  with \<open>approved\<close> true exactly when \<open>c \<ge> 2\<close> and the feedback holds no issue that is
  critical and unresolved, whatever major and minor issues there are.  So an unresolved
  critical issue always blocks the final approval, whatever the standard review approves
  the final review approves too, and from cycle 2 on the final review also approves a
  feedback whose unresolved issues are all major or minor.
\<close>

theorem final_review_relaxes_approval:
  assumes "final_review llm d c w = (Inr (result, d'), w')"
  shows "\<exists>result0 dat0 dat.
           review llm d c (w\<lparr>log := log w @ [PerformingFinalReview c]\<rparr>) = (Inr (result0, d'), w')
           \<and> data result0 = Some dat0 \<and> data result = Some dat
           \<and> issues (feedback dat) = issues (feedback dat0)
           \<and> approved_key dat = approved (feedback dat)
           \<and> approved (feedback dat)
               = (2 \<le> c \<and> \<not> (\<exists>i \<in> set (issues (feedback dat)).
                                  severity i = CRITICAL \<and> \<not> resolved i))
           \<and> ((\<exists>i \<in> set (issues (feedback dat)). severity i = CRITICAL \<and> \<not> resolved i)
                \<longrightarrow> \<not> approved (feedback dat))
           \<and> (c < 2 \<longrightarrow> \<not> approved (feedback dat))
           \<and> (approved (feedback dat0) \<longrightarrow> approved (feedback dat))
           \<and> (2 \<le> c \<and> (\<forall>i \<in> set (issues (feedback dat)).
                          \<not> resolved i \<longrightarrow> severity i = MAJOR \<or> severity i = MINOR)
                \<longrightarrow> approved (feedback dat))"
proof -
  let ?w0 = "w\<lparr>log := log w @ [PerformingFinalReview c]\<rparr>"
  from final_review_result [OF assms] obtain result0 dat0 dat where
    run0: "review llm d c ?w0 = (Inr (result0, d'), w')"
    and dat: "data result0 = Some dat0" "data result = Some dat"
      "issues (feedback dat) = issues (feedback dat0)"
      "approved (feedback dat) =
         (approved (feedback dat0) \<or> (\<not> has_critical_issues (feedback dat0) \<and> 2 \<le> c))"
    and key: "approved_key dat = approved (feedback dat)"
    by blast
  from review_result [OF run0] dat(1) have std:
    "approved (feedback dat0) =
       (2 \<le> c \<and> \<not> list_ex (\<lambda>i. (severity i = CRITICAL \<or> severity i = MAJOR) \<and> \<not> resolved i)
                     (issues (feedback dat0)))"
    by auto
  have crit: "has_critical_issues (feedback dat0)
                = (\<exists>i \<in> set (issues (feedback dat)). severity i = CRITICAL \<and> \<not> resolved i)"
    by (simp add: has_critical_issues_def list_ex_iff dat(3))
  have eq: "approved (feedback dat)
              = (2 \<le> c \<and> \<not> (\<exists>i \<in> set (issues (feedback dat)).
                                 severity i = CRITICAL \<and> \<not> resolved i))"
    using dat(4) std crit critical_major_imp_critical [of "issues (feedback dat0)"]
    by (auto simp: has_critical_issues_def)
  have block: "(\<exists>i \<in> set (issues (feedback dat)). severity i = CRITICAL \<and> \<not> resolved i)
                \<longrightarrow> \<not> approved (feedback dat)"
    unfolding eq by blast
  have first: "c < 2 \<longrightarrow> \<not> approved (feedback dat)"
    unfolding eq by simp
  have weaker: "approved (feedback dat0) \<longrightarrow> approved (feedback dat)"
    using dat(4) by simp
  have more: "2 \<le> c \<and> (\<forall>i \<in> set (issues (feedback dat)).
                 \<not> resolved i \<longrightarrow> severity i = MAJOR \<or> severity i = MINOR)
               \<longrightarrow> approved (feedback dat)"
    unfolding eq by auto
  from run0 dat(1,2,3) key eq block first weaker more show ?thesis by blast
qed

lemma final_review_example:
  "(case final_review llm_one_major example_draft 2 world0 of
      (Inr (res, d'), w') \<Rightarrow>
        (case data res of
           Some dat \<Rightarrow> map severity (issues (feedback dat)) = [MAJOR, MAJOR]
                       \<and> map resolved (issues (feedback dat)) = [False, False]
         | None \<Rightarrow> False)
    | (Inl e, w') \<Rightarrow> False)"
  by code_simp

lemma standard_review_example:
  "(case review llm_one_major example_draft 2 (world0\<lparr>log := log world0 @ [PerformingFinalReview 2]\<rparr>) of
      (Inr (res, d'), w') \<Rightarrow>
        (case data res of Some dat \<Rightarrow> \<not> approved (feedback dat) | None \<Rightarrow> False)
    | (Inl e, w') \<Rightarrow> False)"
  by code_simp

lemma final_review_critical_example:
  "(case final_review llm_one_critical example_draft 2 world0 of
      (Inr (res, d'), w') \<Rightarrow>
        (case data res of
           Some dat \<Rightarrow> map severity (issues (feedback dat)) = [CRITICAL, CRITICAL]
                       \<and> map resolved (issues (feedback dat)) = [False, False]
         | None \<Rightarrow> False)
    | (Inl e, w') \<Rightarrow> False)"
  by code_simp

theorem final_review_relaxes_approval_witness:
  "(\<exists>result d' w' dat result0 dat0.
      final_review llm_one_major example_draft 2 world0 = (Inr (result, d'), w')
      \<and> data result = Some dat
      \<and> map severity (issues (feedback dat)) = [MAJOR, MAJOR]
      \<and> map resolved (issues (feedback dat)) = [False, False]
      \<and> approved (feedback dat)
      \<and> review llm_one_major example_draft 2
           (world0\<lparr>log := log world0 @ [PerformingFinalReview 2]\<rparr>) = (Inr (result0, d'), w')
      \<and> data result0 = Some dat0
      \<and> \<not> approved (feedback dat0))
   \<and> (\<exists>result d' w' dat.
      final_review llm_one_critical example_draft 2 world0 = (Inr (result, d'), w')
      \<and> data result = Some dat
      \<and> map severity (issues (feedback dat)) = [CRITICAL, CRITICAL]
      \<and> map resolved (issues (feedback dat)) = [False, False]
      \<and> \<not> approved (feedback dat))"
proof
  obtain x w' where run: "final_review llm_one_major example_draft 2 world0 = (Inr x, w')"
    using final_review_example by (auto split: prod.splits sum.splits)
  obtain result d' where x: "x = (result, d')" by (cases x)
  from final_review_relaxes_approval [OF run [unfolded x]]
  obtain result0 dat0 dat where
    r0: "review llm_one_major example_draft 2
           (world0\<lparr>log := log world0 @ [PerformingFinalReview 2]\<rparr>) = (Inr (result0, d'), w')"
    and dat: "data result0 = Some dat0" "data result = Some dat"
    and ap: "approved (feedback dat)
               = ((2::int) \<le> 2 \<and> \<not> (\<exists>i \<in> set (issues (feedback dat)).
                                        severity i = CRITICAL \<and> \<not> resolved i))"
    by blast
  have sev: "map severity (issues (feedback dat)) = [MAJOR, MAJOR]"
    and res: "map resolved (issues (feedback dat)) = [False, False]"
    using final_review_example run x dat by simp_all
  have "severity ` set (issues (feedback dat)) = {MAJOR}"
    using arg_cong [OF sev, of set] by simp
  then have "\<forall>i \<in> set (issues (feedback dat)). severity i = MAJOR" by blast
  then have "approved (feedback dat)" using ap by auto
  moreover have "\<not> approved (feedback dat0)"
    using standard_review_example r0 dat by simp
  ultimately have
    "final_review llm_one_major example_draft 2 world0 = (Inr (result, d'), w')
      \<and> data result = Some dat
      \<and> map severity (issues (feedback dat)) = [MAJOR, MAJOR]
      \<and> map resolved (issues (feedback dat)) = [False, False]
      \<and> approved (feedback dat)
      \<and> review llm_one_major example_draft 2
           (world0\<lparr>log := log world0 @ [PerformingFinalReview 2]\<rparr>) = (Inr (result0, d'), w')
      \<and> data result0 = Some dat0
      \<and> \<not> approved (feedback dat0)"
    using run x dat r0 sev res by simp
  then show "\<exists>result d' w' dat result0 dat0.
      final_review llm_one_major example_draft 2 world0 = (Inr (result, d'), w')
      \<and> data result = Some dat
      \<and> map severity (issues (feedback dat)) = [MAJOR, MAJOR]
      \<and> map resolved (issues (feedback dat)) = [False, False]
      \<and> approved (feedback dat)
      \<and> review llm_one_major example_draft 2
           (world0\<lparr>log := log world0 @ [PerformingFinalReview 2]\<rparr>) = (Inr (result0, d'), w')
      \<and> data result0 = Some dat0
      \<and> \<not> approved (feedback dat0)"
    by (intro exI)
next
  obtain x w' where run: "final_review llm_one_critical example_draft 2 world0 = (Inr x, w')"
    using final_review_critical_example by (auto split: prod.splits sum.splits)
  obtain result d' where x: "x = (result, d')" by (cases x)
  from final_review_relaxes_approval [OF run [unfolded x]]
  obtain dat where dat: "data result = Some dat"
    and block: "(\<exists>i \<in> set (issues (feedback dat)). severity i = CRITICAL \<and> \<not> resolved i)
                  \<longrightarrow> \<not> approved (feedback dat)"
    by blast
  have sev: "map severity (issues (feedback dat)) = [CRITICAL, CRITICAL]"
    and res: "map resolved (issues (feedback dat)) = [False, False]"
    using final_review_critical_example run x dat by simp_all
  obtain i0 is0 where is0: "issues (feedback dat) = i0 # is0"
    using sev by (cases "issues (feedback dat)") simp_all
  have "severity i0 = CRITICAL \<and> \<not> resolved i0"
    using sev res is0 by simp
  then have "\<exists>i \<in> set (issues (feedback dat)). severity i = CRITICAL \<and> \<not> resolved i"
    using is0 by simp
  with block have "\<not> approved (feedback dat)" by blast
  then have
    "final_review llm_one_critical example_draft 2 world0 = (Inr (result, d'), w')
      \<and> data result = Some dat
      \<and> map severity (issues (feedback dat)) = [CRITICAL, CRITICAL]
      \<and> map resolved (issues (feedback dat)) = [False, False]
      \<and> \<not> approved (feedback dat)"
    using run x dat sev res by simp
  then show "\<exists>result d' w' dat.
      final_review llm_one_critical example_draft 2 world0 = (Inr (result, d'), w')
      \<and> data result = Some dat
      \<and> map severity (issues (feedback dat)) = [CRITICAL, CRITICAL]
      \<and> map resolved (issues (feedback dat)) = [False, False]
      \<and> \<not> approved (feedback dat)"
    by (intro exI)
qed

subsection \<open>The resolution check\<close>

lemma startswith_iff: "startswith s p = (\<exists>r. s = p @ r)"
  by (induction s p rule: startswith.induct) auto

lemma py_in_iff: "py_in p s = (\<exists>a b. s = a @ p @ b)"
proof (induction s)
  case Nil
  then show ?case by simp
next
  case (Cons c cs)
  show ?case
  proof
    assume "py_in p (c # cs)"
    then consider "startswith (c # cs) p" | "py_in p cs" by auto
    then show "\<exists>a b. c # cs = a @ p @ b"
    proof cases
      case 1
      then obtain r where "c # cs = p @ r" by (auto simp: startswith_iff)
      then have "c # cs = [] @ p @ r" by simp
      then show ?thesis by blast
    next
      case 2
      then obtain a b where "cs = a @ p @ b" using Cons.IH by blast
      then have "c # cs = (c # a) @ p @ b" by simp
      then show ?thesis by blast
    qed
  next
    assume "\<exists>a b. c # cs = a @ p @ b"
    then obtain a b where ab: "c # cs = a @ p @ b" by blast
    show "py_in p (c # cs)"
    proof (cases a)
      case Nil
      then have "startswith (c # cs) p" using ab by (auto simp: startswith_iff)
      then show ?thesis by simp
    next
      case (Cons a0 as)
      then have "cs = as @ p @ b" using ab by simp
      then have "py_in p cs" using Cons.IH by blast
      then show ?thesis by simp
    qed
  qed
qed

lemma py_in_found_verbatim: "py_in p s = found_verbatim p s"
  by (simp add: py_in_iff found_verbatim_def)

lemma found_verbatim_Nil: "found_verbatim [] s"
  unfolding found_verbatim_def by (intro exI [of _ "[]"] exI [of _ s]) simp

lemma found_verbatim_in_Nil: "found_verbatim p [] = (p = [])"
  by (auto simp: found_verbatim_def)

lemma issue_now_absent_iff:
  "issue_now_absent d i = (\<not> found_verbatim (text_excerpt (location i)) (section_content_of d i))"
  using found_verbatim_Nil [of "section_content_of d i"]
  by (auto simp: issue_now_absent_def py_in_found_verbatim)

lemma set_all_section_types: "set all_section_types = UNIV"
proof -
  have "t \<in> set all_section_types" for t
    by (cases t) (simp_all add: all_section_types_def)
  then show ?thesis by blast
qed

lemma section_value_inj: "section_value t = section_value t' \<longleftrightarrow> t = t'"
  by (cases t; cases t'; simp)

lemma SectionType_of_value: "SectionType_of (section_value t) = Some t"
  by (cases t) (simp_all add: SectionType_of_def all_section_types_def)



lemma section_content_of_known:
  "section_name (location i) = section_value t \<Longrightarrow> section_content_of d i = get_section d t"
  by (simp add: section_content_of_def set_all_section_types SectionType_of_value)

lemma section_content_of_unknown:
  "\<forall>t. section_value t \<noteq> section_name (location i) \<Longrightarrow> section_content_of d i = []"
  by (auto simp: section_content_of_def)

text \<open>
  C7.  The resolution check returns the earlier feedback with every issue whose excerpt
  is not found verbatim in the current content of its section marked resolved, and every
  other issue as it was; so an unresolved issue is resolved afterwards exactly when its
  excerpt is no longer found.  Nothing else of the feedback changes; the draft is only
  read (the operation assigns to no field of it, so the model returns no draft).  For an
  issue located in a section kind the content is that section's text in the draft.
\<close>

theorem check_resolved_issues_flags:
  assumes "check_resolved_issues d fb = (result, fb')"
  shows "fb' = fb\<lparr>issues :=
                   map (\<lambda>i. if found_verbatim (text_excerpt (location i)) (section_content_of d i)
                            then i else i\<lparr>resolved := True\<rparr>) (issues fb)\<rparr>
         \<and> length (issues fb') = length (issues fb)
         \<and> (\<forall>k < length (issues fb).
               \<not> resolved (issues fb ! k) \<longrightarrow>
                 resolved (issues fb' ! k) =
                   (\<not> found_verbatim (text_excerpt (location (issues fb ! k)))
                         (section_content_of d (issues fb ! k))))
         \<and> (\<forall>k < length (issues fb). \<forall>t.
               section_name (location (issues fb ! k)) = section_value t \<longrightarrow>
                 section_content_of d (issues fb ! k) = get_section d t)"
proof -
  have fb': "fb' = fb\<lparr>issues :=
                   map (\<lambda>i. if found_verbatim (text_excerpt (location i)) (section_content_of d i)
                            then i else i\<lparr>resolved := True\<rparr>) (issues fb)\<rparr>"
  proof -
    have "(\<lambda>i. if issue_now_absent d i then i\<lparr>resolved := True\<rparr> else i)
          = (\<lambda>i. if found_verbatim (text_excerpt (location i)) (section_content_of d i)
                  then i else i\<lparr>resolved := True\<rparr>)"
      by (rule ext) (simp add: issue_now_absent_iff)
    then show ?thesis
      using assms by (simp add: check_resolved_issues_def Let_def)
  qed
  then show ?thesis
    by (simp add: section_content_of_known)
qed

theorem check_resolved_issues_flags_witness:
  "\<exists>result fb'. check_resolved_issues example_draft example_feedback = (result, fb')
     \<and> map resolved (issues fb') = [False, True, False, True]
     \<and> fb' = example_feedback\<lparr>issues := issues fb'\<rparr>"
proof -
  obtain result fb' where run: "check_resolved_issues example_draft example_feedback = (result, fb')"
    by (cases "check_resolved_issues example_draft example_feedback")
  have ev: "map resolved (issues (snd (check_resolved_issues example_draft example_feedback)))
              = [False, True, False, True]"
    by code_simp
  from check_resolved_issues_flags [OF run]
  have "fb' = example_feedback\<lparr>issues := issues fb'\<rparr>" by simp
  then show ?thesis using run ev by simp
qed

text \<open>
  C10.  In the resolution check an issue with an empty excerpt is left exactly as it
  was, whatever the draft is.  An issue whose location names no section kind and whose
  excerpt is not empty is checked against the empty text and is marked resolved.
\<close>

theorem check_resolved_issues_edge_cases:
  assumes "k < length (issues fb)"
  shows "(text_excerpt (location (issues fb ! k)) = [] \<longrightarrow>
            issues (snd (check_resolved_issues d fb)) ! k = issues fb ! k)
       \<and> ((\<forall>t. section_value t \<noteq> section_name (location (issues fb ! k)))
            \<and> text_excerpt (location (issues fb ! k)) \<noteq> [] \<longrightarrow>
            section_content_of d (issues fb ! k) = []
            \<and> resolved (issues (snd (check_resolved_issues d fb)) ! k))"
  using assms
  by (auto simp: check_resolved_issues_def Let_def issue_now_absent_iff found_verbatim_Nil
        found_verbatim_in_Nil section_content_of_unknown)

theorem check_resolved_issues_edge_cases_witness:
  "(2::nat) < length (issues example_feedback)
   \<and> text_excerpt (location (issues example_feedback ! 2)) = []
   \<and> \<not> resolved (issues (snd (check_resolved_issues example_draft example_feedback)) ! 2)
   \<and> (3::nat) < length (issues example_feedback)
   \<and> (\<forall>t. section_value t \<noteq> section_name (location (issues example_feedback ! 3)))
   \<and> text_excerpt (location (issues example_feedback ! 3)) \<noteq> []
   \<and> resolved (issues (snd (check_resolved_issues example_draft example_feedback)) ! 3)"
proof -
  have l2: "(2::nat) < length (issues example_feedback)"
    and l3: "(3::nat) < length (issues example_feedback)"
    by (simp_all add: example_feedback_def)
  have e2: "text_excerpt (location (issues example_feedback ! 2)) = []"
    by (simp add: example_feedback_def mk_issue_def)
  have u2: "\<not> resolved (issues example_feedback ! 2)"
    by (simp add: example_feedback_def mk_issue_def)
  have s3: "\<forall>t. section_value t \<noteq> section_name (location (issues example_feedback ! 3))"
  proof
    fix t show "section_value t \<noteq> section_name (location (issues example_feedback ! 3))"
      by (cases t) (simp_all add: example_feedback_def mk_issue_def)
  qed
  have e3: "text_excerpt (location (issues example_feedback ! 3)) \<noteq> []"
    by (simp add: example_feedback_def mk_issue_def)
  from check_resolved_issues_edge_cases [OF l2, of example_draft] e2 u2
  have r2: "\<not> resolved (issues (snd (check_resolved_issues example_draft example_feedback)) ! 2)"
    by simp
  from check_resolved_issues_edge_cases [OF l3, of example_draft] s3 e3
  have r3: "resolved (issues (snd (check_resolved_issues example_draft example_feedback)) ! 3)"
    by blast
  from l2 l3 e2 s3 e3 r2 r3 show ?thesis by blast
qed

subsection \<open>Parsing the reviewer's response\<close>

lemma found_verbatim_trans:
  "found_verbatim p l \<Longrightarrow> found_verbatim l s \<Longrightarrow> found_verbatim p s"
proof -
  assume "found_verbatim p l" "found_verbatim l s"
  then obtain a b a' b' where "l = a @ p @ b" "s = a' @ l @ b'"
    unfolding found_verbatim_def by blast
  then have "s = (a' @ a) @ p @ (b @ b')" by simp
  then show ?thesis unfolding found_verbatim_def by blast
qed

lemma startswith_found: "startswith s m \<Longrightarrow> found_verbatim m s"
proof -
  assume "startswith s m"
  then obtain r where "s = [] @ m @ r" by (auto simp: startswith_iff)
  then show ?thesis unfolding found_verbatim_def by blast
qed

lemma py_strip_found: "found_verbatim (py_strip s) s"
proof -
  let ?t = "dropWhile py_isspace s"
  have 1: "s = takeWhile py_isspace s @ ?t" by simp
  have "?t = rev (dropWhile py_isspace (rev ?t)) @ rev (takeWhile py_isspace (rev ?t))"
    by (metis rev_append rev_rev_ident takeWhile_dropWhile_id)
  then have 2: "?t = py_strip s @ rev (takeWhile py_isspace (rev ?t))"
    by (simp add: py_strip_def)
  have "s = takeWhile py_isspace s @ py_strip s @ rev (takeWhile py_isspace (rev ?t))"
    using 1 2 by metis
  then show ?thesis unfolding found_verbatim_def by blast
qed

lemma split_on_hd: "\<exists>w ws r. split_on c s = w # ws \<and> s = w @ r"
proof (induction s)
  case Nil
  then show ?case by simp
next
  case (Cons x xs)
  then obtain w ws r where "split_on c xs = w # ws" "xs = w @ r" by blast
  then show ?case by (cases "x = c") auto
qed

lemma split_on_found: "l \<in> set (split_on c s) \<Longrightarrow> found_verbatim l s"
proof (induction s arbitrary: l)
  case Nil
  then show ?case by (simp add: found_verbatim_Nil)
next
  case (Cons x xs)
  obtain w ws r where w: "split_on c xs = w # ws" "xs = w @ r"
    using split_on_hd by blast
  have tail: "found_verbatim l xs \<Longrightarrow> found_verbatim l (x # xs)" for l
  proof -
    assume "found_verbatim l xs"
    then obtain a b where "xs = a @ l @ b" unfolding found_verbatim_def by blast
    then have "x # xs = (x # a) @ l @ b" by simp
    then show ?thesis unfolding found_verbatim_def by blast
  qed
  show ?case
  proof (cases "x = c")
    case True
    then have "l = [] \<or> l \<in> set (split_on c xs)" using Cons.prems by auto
    then show ?thesis using Cons.IH tail by (auto simp: found_verbatim_Nil)
  next
    case False
    then have "l = x # w \<or> l \<in> set ws" using Cons.prems w by auto
    then show ?thesis
    proof
      assume "l = x # w"
      then have "x # xs = [] @ l @ r" using w by simp
      then show ?thesis unfolding found_verbatim_def by blast
    next
      assume "l \<in> set ws"
      then have "l \<in> set (split_on c xs)" using w by simp
      then show ?thesis using Cons.IH tail by blast
    qed
  qed
qed

lemma parse_line_no_marker:
  assumes "\<forall>m \<in> set field_markers. \<not> startswith (py_strip l) m"
  shows "parse_line t l st = st"
  using assms by (cases st) (simp add: parse_line_def field_markers_def Let_def)

lemma parse_lines_no_marker:
  "\<forall>l \<in> set ls. \<forall>m \<in> set field_markers. \<not> startswith (py_strip l) m
     \<Longrightarrow> parse_lines t ls st = st"
  by (induction ls arbitrary: st) (simp_all add: parse_line_no_marker)

lemma parse_line_created:
  assumes "\<forall>issue \<in> set (snd st). \<exists>dat. issue = create_issue dat t"
  shows "\<forall>issue \<in> set (snd (parse_line t l st)). \<exists>dat. issue = create_issue dat t"
  using assms by (cases st) (auto simp: parse_line_def Let_def)

lemma parse_lines_created:
  "\<forall>issue \<in> set (snd st). \<exists>dat. issue = create_issue dat t
     \<Longrightarrow> \<forall>issue \<in> set (snd (parse_lines t ls st)). \<exists>dat. issue = create_issue dat t"
proof (induction ls arbitrary: st)
  case Nil
  then show ?case by simp
next
  case (Cons l ls)
  have "\<forall>issue \<in> set (snd (parse_line t l st)). \<exists>dat. issue = create_issue dat t"
    using Cons.prems by (rule parse_line_created)
  then have "\<forall>issue \<in> set (snd (parse_lines t ls (parse_line t l st))).
               \<exists>dat. issue = create_issue dat t"
    by (rule Cons.IH)
  then show ?case by simp
qed

lemma parse_section_response_created:
  assumes "issue \<in> set (parse_section_response response t)"
  shows "\<exists>dat. issue = create_issue dat t"
proof -
  obtain cur acc where r: "parse_lines t (split_on CHR ''\<newline>'' response) ([], []) = (cur, acc)"
    by (cases "parse_lines t (split_on CHR ''\<newline>'' response) ([], [])")
  have "\<forall>issue \<in> set (snd (parse_lines t (split_on CHR ''\<newline>'' response) ([], []))).
          \<exists>dat. issue = create_issue dat t"
    by (rule parse_lines_created) simp
  then have acc: "\<forall>issue \<in> set acc. \<exists>dat. issue = create_issue dat t"
    by (simp add: r)
  have "parse_section_response response t
          = (if \<not> py_in ''NO_ISSUES'' response
             then (if cur \<noteq> [] then acc @ [create_issue cur t] else acc) else [])"
    by (simp only: parse_section_response_def r prod.case)
  then have "set (parse_section_response response t) \<subseteq> set acc \<union> {create_issue cur t}"
    by (cases "py_in ''NO_ISSUES'' response"; cases "cur = []") auto
  then have "issue \<in> set acc \<or> issue = create_issue cur t"
    using assms by blast
  then show ?thesis using acc by blast
qed

lemma parse_section_response_no_marker:
  assumes "\<forall>m \<in> set field_markers. \<not> found_verbatim m response"
  shows "parse_section_response response t = []"
proof -
  have "\<forall>l \<in> set (split_on CHR ''\<newline>'' response). \<forall>m \<in> set field_markers.
          \<not> startswith (py_strip l) m"
  proof (intro ballI notI)
    fix l m
    assume l: "l \<in> set (split_on CHR ''\<newline>'' response)" and m: "m \<in> set field_markers"
      and s: "startswith (py_strip l) m"
    have "found_verbatim m (py_strip l)" using s by (rule startswith_found)
    then have "found_verbatim m l" using py_strip_found found_verbatim_trans by blast
    then have "found_verbatim m response"
      using split_on_found [OF l] found_verbatim_trans by blast
    with assms m show False by blast
  qed
  then have "parse_lines t (split_on CHR ''\<newline>'' response) ([], []) = ([], [])"
    by (rule parse_lines_no_marker)
  then show ?thesis by (simp add: parse_section_response_def)
qed

lemma review_section_parses:
  assumes "llm (llm_state w) (ReviewSectionPrompt t (take 5000 content) c) 2000 = (Inr response, s')"
  shows "review_section llm t content c w
           = (Inr (parse_section_response response t), w\<lparr>llm_state := s'\<rparr>)"
  using assms by (simp add: review_section_def io_bind_def generate_def io_return_def)

text \<open>
  C9.  Parsing a response is a total function of the text: \<open>_review_section\<close> returns
  the parsed list whenever the language model returns a text.  Every issue it yields is
  built by \<open>_create_issue\<close>, is located in the section under review and is unresolved;
  a category that is missing or outside the category table gives \<open>vague_claim\<close>, a
  severity that is missing or outside the severity table gives \<open>minor\<close>.  A response
  that contains \<open>NO_ISSUES\<close>, or none of the field markers, gives the empty list.
\<close>

theorem parse_section_response_total:
  "(\<forall>issue \<in> set (parse_section_response response t).
       (\<exists>dat. issue = create_issue dat t)
       \<and> section_name (location issue) = section_value t \<and> \<not> resolved issue)
   \<and> (\<forall>dat. map_of dat ''category'' = None
              \<or> dict_get dat ''category'' [] \<notin> fst ` set category_map
          \<longrightarrow> issue_type (create_issue dat t) = VAGUE_CLAIM)
   \<and> (\<forall>dat. map_of dat ''severity'' = None
              \<or> dict_get dat ''severity'' ''MINOR'' \<notin> fst ` set severity_map
          \<longrightarrow> severity (create_issue dat t) = MINOR)
   \<and> (found_verbatim ''NO_ISSUES'' response \<longrightarrow> parse_section_response response t = [])
   \<and> ((\<forall>m \<in> set field_markers. \<not> found_verbatim m response)
          \<longrightarrow> parse_section_response response t = [])
   \<and> (\<forall>llm content c w s'.
          llm (llm_state w) (ReviewSectionPrompt t (take 5000 content) c) 2000 = (Inr response, s')
          \<longrightarrow> review_section llm t content c w
                = (Inr (parse_section_response response t), w\<lparr>llm_state := s'\<rparr>))"
proof (intro conjI)
  show "\<forall>issue \<in> set (parse_section_response response t).
       (\<exists>dat. issue = create_issue dat t)
       \<and> section_name (location issue) = section_value t \<and> \<not> resolved issue"
  proof
    fix issue assume "issue \<in> set (parse_section_response response t)"
    then obtain dat where "issue = create_issue dat t"
      using parse_section_response_created by blast
    then show "(\<exists>dat. issue = create_issue dat t)
       \<and> section_name (location issue) = section_value t \<and> \<not> resolved issue"
      by (auto simp: create_issue_def)
  qed
next
  show "\<forall>dat. map_of dat ''category'' = None
              \<or> dict_get dat ''category'' [] \<notin> fst ` set category_map
          \<longrightarrow> issue_type (create_issue dat t) = VAGUE_CLAIM"
  proof (intro allI impI)
    fix dat :: "(string, string) dict"
    assume a: "map_of dat ''category'' = None
              \<or> dict_get dat ''category'' [] \<notin> fst ` set category_map"
    have e: "[] \<notin> fst ` set category_map" by (simp add: category_map_def)
    have "dict_get dat ''category'' [] \<notin> fst ` set category_map"
    proof (cases "map_of dat ''category''")
      case None
      then have "dict_get dat ''category'' [] = []" by (simp add: dict_get_def)
      with e show ?thesis by simp
    next
      case (Some v)
      with a show ?thesis by simp
    qed
    then have "map_of category_map (dict_get dat ''category'' []) = None"
      by (simp add: map_of_eq_None_iff)
    then show "issue_type (create_issue dat t) = VAGUE_CLAIM"
      by (simp add: create_issue_def dict_get_def)
  qed
next
  show "\<forall>dat. map_of dat ''severity'' = None
              \<or> dict_get dat ''severity'' ''MINOR'' \<notin> fst ` set severity_map
          \<longrightarrow> severity (create_issue dat t) = MINOR"
  proof (intro allI impI)
    fix dat :: "(string, string) dict"
    assume a: "map_of dat ''severity'' = None
              \<or> dict_get dat ''severity'' ''MINOR'' \<notin> fst ` set severity_map"
    show "severity (create_issue dat t) = MINOR"
    proof (cases "map_of severity_map (dict_get dat ''severity'' ''MINOR'')")
      case None
      then show ?thesis by (simp add: create_issue_def dict_get_def)
    next
      case (Some v)
      then have "dict_get dat ''severity'' ''MINOR'' \<in> fst ` set severity_map"
        by (metis map_of_eq_None_iff option.distinct(1))
      with a have "map_of dat ''severity'' = None" by blast
      then have d: "dict_get dat ''severity'' ''MINOR'' = ''MINOR''" by (simp add: dict_get_def)
      have m: "dict_get severity_map ''MINOR'' MINOR = MINOR"
        by (simp add: dict_get_def severity_map_def)
      show ?thesis by (simp add: create_issue_def d m)
    qed
  qed
next
  show "found_verbatim ''NO_ISSUES'' response \<longrightarrow> parse_section_response response t = []"
    by (simp add: parse_section_response_def py_in_found_verbatim)
next
  show "(\<forall>m \<in> set field_markers. \<not> found_verbatim m response)
          \<longrightarrow> parse_section_response response t = []"
    using parse_section_response_no_marker by blast
next
  show "\<forall>llm content c w s'.
          llm (llm_state w) (ReviewSectionPrompt t (take 5000 content) c) 2000 = (Inr response, s')
          \<longrightarrow> review_section llm t content c w
                = (Inr (parse_section_response response t), w\<lparr>llm_state := s'\<rparr>)"
    by (intro allI impI) (rule review_section_parses)
qed

lemma example_response_parsed:
  "map (\<lambda>i. (issue_type i, severity i, text_excerpt (location i)))
       (parse_section_response example_response INTRODUCTION)
     = [(MISSING_CITATION, CRITICAL, ''foo bar''), (VAGUE_CLAIM, MINOR, [])]"
  by code_simp

theorem parse_section_response_total_witness:
  "map (\<lambda>i. (issue_type i, severity i, text_excerpt (location i)))
       (parse_section_response example_response INTRODUCTION)
     = [(MISSING_CITATION, CRITICAL, ''foo bar''), (VAGUE_CLAIM, MINOR, [])]
   \<and> list_all (\<lambda>issue. section_name (location issue) = ''introduction'' \<and> \<not> resolved issue)
        (parse_section_response example_response INTRODUCTION)
   \<and> issue_type (create_issue [(''category'', ''BOGUS'')] INTRODUCTION) = VAGUE_CLAIM
   \<and> severity (create_issue [(''category'', ''BOGUS'')] INTRODUCTION) = MINOR
   \<and> found_verbatim ''NO_ISSUES'' ''NO_ISSUES: fine''
   \<and> parse_section_response ''NO_ISSUES: fine'' INTRODUCTION = []
   \<and> list_all (\<lambda>m. \<not> found_verbatim m ''Looks good to me.'') field_markers
   \<and> parse_section_response ''Looks good to me.'' INTRODUCTION = []
   \<and> review_section llm_no_issues INTRODUCTION ''X'' 1 world0
       = (Inr (parse_section_response ''NO_ISSUES: This section meets quality standards.'' INTRODUCTION),
          world0\<lparr>llm_state := ()\<rparr>)"
proof -
  note t1 = parse_section_response_total [of example_response INTRODUCTION]
  note t2 = parse_section_response_total [of "''NO_ISSUES: fine''" INTRODUCTION]
  note t3 = parse_section_response_total [of "''Looks good to me.''" INTRODUCTION]
  note t4 = parse_section_response_total
              [of "''NO_ISSUES: This section meets quality standards.''" INTRODUCTION]
  have a: "\<forall>issue \<in> set (parse_section_response example_response INTRODUCTION).
         section_name (location issue) = ''introduction'' \<and> \<not> resolved issue"
    using t1 [THEN conjunct1] by simp
  have a': "list_all (\<lambda>issue. section_name (location issue) = ''introduction'' \<and> \<not> resolved issue)
        (parse_section_response example_response INTRODUCTION)"
    using a by (simp only: list_all_iff)
  have b1: "dict_get [(''category'', ''BOGUS'')] ''category'' [] \<notin> fst ` set category_map"
    by (simp add: dict_get_def category_map_def)
  have b: "issue_type (create_issue [(''category'', ''BOGUS'')] INTRODUCTION) = VAGUE_CLAIM"
    by (rule t1 [THEN conjunct2, THEN conjunct1, rule_format]) (rule disjI2, rule b1)
  have c1: "map_of [(''category'', ''BOGUS'')] ''severity'' = None" by simp
  have c: "severity (create_issue [(''category'', ''BOGUS'')] INTRODUCTION) = MINOR"
    by (rule t1 [THEN conjunct2, THEN conjunct2, THEN conjunct1, rule_format])
       (rule disjI1, rule c1)
  have d1: "found_verbatim ''NO_ISSUES'' ''NO_ISSUES: fine''"
    unfolding py_in_found_verbatim [symmetric] by simp
  have d: "parse_section_response ''NO_ISSUES: fine'' INTRODUCTION = []"
    by (rule t2 [THEN conjunct2, THEN conjunct2, THEN conjunct2, THEN conjunct1, rule_format])
       (rule d1)
  have e1: "\<forall>m \<in> set field_markers. \<not> found_verbatim m ''Looks good to me.''"
    unfolding py_in_found_verbatim [symmetric] field_markers_def by simp
  have e: "parse_section_response ''Looks good to me.'' INTRODUCTION = []"
    by (rule t3 [THEN conjunct2, THEN conjunct2, THEN conjunct2, THEN conjunct2, THEN conjunct1,
                 THEN mp])
       (rule e1)
  have e1': "list_all (\<lambda>m. \<not> found_verbatim m ''Looks good to me.'') field_markers"
    using e1 by (simp only: list_all_iff)
  have f1: "llm_no_issues (llm_state world0) (ReviewSectionPrompt INTRODUCTION (take 5000 ''X'') 1) 2000
              = (Inr ''NO_ISSUES: This section meets quality standards.'', ())"
    by (simp add: llm_no_issues_def)
  have f: "review_section llm_no_issues INTRODUCTION ''X'' 1 world0
       = (Inr (parse_section_response ''NO_ISSUES: This section meets quality standards.'' INTRODUCTION),
          world0\<lparr>llm_state := ()\<rparr>)"
    by (rule t4 [THEN conjunct2, THEN conjunct2, THEN conjunct2, THEN conjunct2, THEN conjunct2,
                 rule_format])
       (rule f1)
  show ?thesis
    by (intro conjI) (rule example_response_parsed a' b c d1 d e1' e f)+
qed

subsection \<open>Sorting by severity\<close>

lemma insort_key_skip:
  "\<forall>y \<in> set ys. f y < f x \<Longrightarrow> insort_key f x (ys @ zs) = ys @ insort_key f x zs"
  by (induction ys) auto

lemma sort_key_three:
  fixes f :: "'a \<Rightarrow> nat"
  assumes "\<forall>x \<in> set xs. f x \<le> 2"
  shows "sort_key f xs
           = filter (\<lambda>x. f x = 0) xs @ filter (\<lambda>x. f x = 1) xs @ filter (\<lambda>x. f x = 2) xs"
  using assms
proof (induction xs)
  case Nil
  then show ?case by simp
next
  case (Cons x xs)
  let ?A = "filter (\<lambda>x. f x = 0) xs" and ?B = "filter (\<lambda>x. f x = 1) xs"
    and ?C = "filter (\<lambda>x. f x = 2) xs"
  have IH: "sort_key f xs = ?A @ ?B @ ?C" using Cons by simp
  have fx: "f x = 0 \<or> f x = 1 \<or> f x = 2" using Cons.prems by (simp add: le_Suc_eq numeral_2_eq_2)
  have step: "sort_key f (x # xs) = insort_key f x (?A @ ?B @ ?C)" by (simp add: IH)
  from fx show ?case
  proof (elim disjE)
    assume 0: "f x = 0"
    then have "insort_key f x (?A @ ?B @ ?C) = x # ?A @ ?B @ ?C"
      by (intro insort_is_Cons) simp
    then show ?thesis using 0 step by simp
  next
    assume 1: "f x = 1"
    have "insort_key f x (?A @ (?B @ ?C)) = ?A @ insort_key f x (?B @ ?C)"
      by (rule insort_key_skip) (simp add: 1)
    moreover have "insort_key f x (?B @ ?C) = x # ?B @ ?C"
      by (intro insort_is_Cons) (auto simp: 1)
    ultimately show ?thesis using 1 step by simp
  next
    assume 2: "f x = 2"
    have "insort_key f x ((?A @ ?B) @ ?C) = (?A @ ?B) @ insort_key f x ?C"
      by (rule insort_key_skip) (auto simp: 2)
    moreover have "insort_key f x ?C = x # ?C"
      by (intro insort_is_Cons) (auto simp: 2)
    ultimately show ?thesis using 2 step by simp
  qed
qed

lemma severity_rank_le: "severity_rank s \<le> 2"
  by (cases s) simp_all

lemma severity_rank_eq:
  "severity_rank s = 0 \<longleftrightarrow> s = CRITICAL"
  "severity_rank s = Suc 0 \<longleftrightarrow> s = MAJOR"
  "severity_rank s = 2 \<longleftrightarrow> s = MINOR"
  by (cases s; simp)+

lemma sort_by_severity_eq:
  "sort_by_severity is idxs
     = filter (\<lambda>i. severity (is ! i) = CRITICAL) idxs
       @ filter (\<lambda>i. severity (is ! i) = MAJOR) idxs
       @ filter (\<lambda>i. severity (is ! i) = MINOR) idxs"
proof -
  have "\<forall>i \<in> set idxs. severity_rank (severity (is ! i)) \<le> 2"
    by (simp add: severity_rank_le)
  from sort_key_three [of idxs "\<lambda>i. severity_rank (severity (is ! i))", OF this]
  show ?thesis by (simp add: sort_by_severity_def severity_rank_eq)
qed



subsection \<open>Grouping by section\<close>

lemma dict_set_keys:
  "map fst (dict_set d k v) = (if k \<in> fst ` set d then map fst d else map fst d @ [k])"
  by (induction d) force+

lemma distinct_dict_set: "distinct (map fst d) \<Longrightarrow> distinct (map fst (dict_set d k v))"
  by (simp add: dict_set_keys)

lemma dict_get_group_step:
  "dict_get (group_step is i g) s []
     = dict_get g s []
       @ (if \<not> resolved (is ! i) \<and> section_name (location (is ! i)) = s then [i] else [])"
  by (auto simp: group_step_def Let_def dict_contains_def dict_get_def map_of_dict_set
           split: option.splits)

lemma keys_group_step:
  "fst ` set (group_step is i g)
     = fst ` set g \<union> (if \<not> resolved (is ! i) then {section_name (location (is ! i))} else {})"
proof -
  have k: "fst ` set (dict_set d k v) = insert k (fst ` set d)" for d :: "(string, nat list) dict" and k v
    using arg_cong [OF dict_set_keys [of d k v], of set] by (auto simp: image_iff)
  show ?thesis
    by (auto simp: group_step_def Let_def k)
qed

lemma distinct_group_step: "distinct (map fst g) \<Longrightarrow> distinct (map fst (group_step is i g))"
  by (simp add: group_step_def Let_def distinct_dict_set)

lemma fold_group_step:
  "distinct (map fst g) \<Longrightarrow>
     distinct (map fst (fold (group_step is) xs g))
     \<and> dict_get (fold (group_step is) xs g) s []
         = dict_get g s []
           @ filter (\<lambda>i. \<not> resolved (is ! i) \<and> section_name (location (is ! i)) = s) xs
     \<and> fst ` set (fold (group_step is) xs g)
         = fst ` set g \<union> {section_name (location (is ! i)) | i. i \<in> set xs \<and> \<not> resolved (is ! i)}"
proof (induction xs arbitrary: g)
  case Nil
  then show ?case by simp
next
  case (Cons x xs)
  have d: "distinct (map fst (group_step is x g))"
    using Cons.prems by (rule distinct_group_step)
  note IH = Cons.IH [OF d]
  show ?case
  proof (intro conjI)
    show "distinct (map fst (fold (group_step is) (x # xs) g))" using IH by simp
    show "dict_get (fold (group_step is) (x # xs) g) s []
         = dict_get g s []
           @ filter (\<lambda>i. \<not> resolved (is ! i) \<and> section_name (location (is ! i)) = s) (x # xs)"
      using IH by (simp add: dict_get_group_step)
    show "fst ` set (fold (group_step is) (x # xs) g)
         = fst ` set g \<union> {section_name (location (is ! i)) | i. i \<in> set (x # xs) \<and> \<not> resolved (is ! i)}"
      using IH by (auto simp: keys_group_step)
  qed
qed

lemma distinct_group_issues: "distinct (map fst (group_issues is))"
  using fold_group_step [of "[]" "is" "[0..<length is]"] by (simp add: group_issues_def)

lemma dict_get_distinct:
  "distinct (map fst d) \<Longrightarrow> (k, v) \<in> set d \<Longrightarrow> dict_get d k dflt = v"
  by (simp add: dict_get_def)

lemma group_issues_member:
  assumes "(s, idxs) \<in> set (group_issues is)"
  shows "idxs = unresolved_in is s"
proof -
  have "dict_get (group_issues is) s [] = idxs"
    using distinct_group_issues assms by (rule dict_get_distinct)
  moreover have "dict_get (group_issues is) s [] = unresolved_in is s"
    using fold_group_step [of "[]" "is" "[0..<length is]" s]
    by (simp add: group_issues_def unresolved_in_def dict_get_def)
  ultimately show ?thesis by simp
qed

lemma group_issues_keys:
  "fst ` set (group_issues is)
     = {section_name (location (is ! i)) | i. i < length is \<and> \<not> resolved (is ! i)}"
  using fold_group_step [of "[]" "is" "[0..<length is]"] by (simp add: group_issues_def)

lemma unresolved_in_nonempty:
  "i < length is \<Longrightarrow> \<not> resolved (is ! i) \<Longrightarrow> i \<in> set (unresolved_in is (section_name (location (is ! i))))"
  by (simp add: unresolved_in_def)


lemma issues_by_section_member:
  "(s, idxs) \<in> set (issues_by_section is)
     \<longleftrightarrow> (s, unresolved_in is s) \<in> set (group_issues is)
          \<and> idxs = sort_by_severity is (unresolved_in is s)"
proof
  assume "(s, idxs) \<in> set (issues_by_section is)"
  then obtain g where g: "(s, g) \<in> set (group_issues is)" "idxs = sort_by_severity is g"
    unfolding issues_by_section_def by auto
  from g(1) have "g = unresolved_in is s" by (rule group_issues_member)
  with g show "(s, unresolved_in is s) \<in> set (group_issues is)
          \<and> idxs = sort_by_severity is (unresolved_in is s)" by simp
next
  assume a: "(s, unresolved_in is s) \<in> set (group_issues is)
          \<and> idxs = sort_by_severity is (unresolved_in is s)"
  then have "(\<lambda>(s, idxs). (s, sort_by_severity is idxs)) (s, unresolved_in is s)
               \<in> set (issues_by_section is)"
    unfolding issues_by_section_def set_map by (intro imageI) simp
  with a show "(s, idxs) \<in> set (issues_by_section is)" by simp
qed


text \<open>
  C6.  Every group that \<open>_apply_all_fixes\<close> hands to the rewrite of a section holds the
  unresolved issues of that section: first the critical ones, then the major ones, then
  the minor ones, each class in the order of the feedback's list.  The group is never
  empty, and the issues of one severity keep their relative order.
\<close>

theorem issues_by_section_severity_first:
  assumes "(s, idxs) \<in> set (issues_by_section is)"
  shows "idxs = filter (\<lambda>i. severity (is ! i) = CRITICAL) (unresolved_in is s)
              @ filter (\<lambda>i. severity (is ! i) = MAJOR) (unresolved_in is s)
              @ filter (\<lambda>i. severity (is ! i) = MINOR) (unresolved_in is s)
         \<and> unresolved_in is s \<noteq> []
         \<and> (\<forall>sev. filter (\<lambda>i. severity (is ! i) = sev) idxs
                    = filter (\<lambda>i. severity (is ! i) = sev) (unresolved_in is s))"
proof -
  from assms have g: "(s, unresolved_in is s) \<in> set (group_issues is)"
    and i: "idxs = sort_by_severity is (unresolved_in is s)"
    by (simp_all add: issues_by_section_member)
  have 1: "idxs = filter (\<lambda>i. severity (is ! i) = CRITICAL) (unresolved_in is s)
              @ filter (\<lambda>i. severity (is ! i) = MAJOR) (unresolved_in is s)
              @ filter (\<lambda>i. severity (is ! i) = MINOR) (unresolved_in is s)"
    unfolding i by (rule sort_by_severity_eq)
  have "s \<in> fst ` set (group_issues is)" using g by force
  then obtain k where "k < length is" "\<not> resolved (is ! k)" "section_name (location (is ! k)) = s"
    by (auto simp: group_issues_keys)
  then have "k \<in> set (unresolved_in is s)" by (auto simp: unresolved_in_def)
  then have 2: "unresolved_in is s \<noteq> []" by auto
  have 3: "filter (\<lambda>i. severity (is ! i) = sev) idxs
             = filter (\<lambda>i. severity (is ! i) = sev) (unresolved_in is s)" for sev
    by (subst 1, cases sev) (auto simp: filter_empty_conv)
  from 1 2 3 show ?thesis by blast
qed


lemma example_issues_grouped:
  "issues_by_section example_issues = [(''introduction'', [1, 2, 0, 3])]"
  by code_simp

lemma example_issues_prompt:
  "llm_state (snd (apply_all_fixes llm_recording example_draft
                     (example_feedback\<lparr>issues := example_issues\<rparr>) \<lparr>llm_state = [], log = []\<rparr>))
     = [EditSectionPrompt
          [example_issues ! 1, example_issues ! 2, example_issues ! 0, example_issues ! 3] ''X'']"
  by code_simp

theorem issues_by_section_severity_first_witness:
  "(''introduction'', [1, 2, 0, 3]) \<in> set (issues_by_section example_issues)
   \<and> map severity example_issues = [MINOR, CRITICAL, MAJOR, MINOR]
   \<and> unresolved_in example_issues ''introduction'' = [0, 1, 2, 3]
   \<and> [1, 2, 0, 3]
       = filter (\<lambda>i. severity (example_issues ! i) = CRITICAL) (unresolved_in example_issues ''introduction'')
         @ filter (\<lambda>i. severity (example_issues ! i) = MAJOR) (unresolved_in example_issues ''introduction'')
         @ filter (\<lambda>i. severity (example_issues ! i) = MINOR) (unresolved_in example_issues ''introduction'')
   \<and> map (\<lambda>i. severity (example_issues ! i)) [1, 2, 0, 3] = [CRITICAL, MAJOR, MINOR, MINOR]
   \<and> llm_state (snd (apply_all_fixes llm_recording example_draft
                     (example_feedback\<lparr>issues := example_issues\<rparr>) \<lparr>llm_state = [], log = []\<rparr>))
     = [EditSectionPrompt
          [example_issues ! 1, example_issues ! 2, example_issues ! 0, example_issues ! 3] ''X'']"
proof -
  have m: "(''introduction'', [1, 2, 0, 3]) \<in> set (issues_by_section example_issues)"
    by (simp add: example_issues_grouped)
  have sev: "map severity example_issues = [MINOR, CRITICAL, MAJOR, MINOR]"
    by (simp add: example_issues_def mk_issue_def)
  have u: "unresolved_in example_issues ''introduction'' = [0, 1, 2, 3]"
    by code_simp
  have s2: "map (\<lambda>i. severity (example_issues ! i)) [1, 2, 0, 3] = [CRITICAL, MAJOR, MINOR, MINOR]"
    by (simp add: example_issues_def mk_issue_def)
  note t = issues_by_section_severity_first [OF m, THEN conjunct1]
  show ?thesis
    by (intro conjI) (rule m sev u t s2 example_issues_prompt)+
qed

subsection \<open>The editor\<close>

lemma calls_append: "calls (xs @ ys) = calls xs @ calls ys"
  by (induction xs rule: calls.induct) simp_all

lemma fold_mark_resolved:
  "length (fold (\<lambda>i xs. xs[i := (xs ! i)\<lparr>resolved := True\<rparr>]) idxs is) = length is
   \<and> (\<forall>k < length is.
         fold (\<lambda>i xs. xs[i := (xs ! i)\<lparr>resolved := True\<rparr>]) idxs is ! k
           = (if k \<in> set idxs then (is ! k)\<lparr>resolved := True\<rparr> else is ! k))"
proof (induction idxs arbitrary: "is")
  case Nil
  then show ?case by simp
next
  case (Cons i idxs)
  let ?is1 = "is[i := (is ! i)\<lparr>resolved := True\<rparr>]"
  have l: "length ?is1 = length is" by simp
  have n: "?is1 ! k = (if k = i then (is ! k)\<lparr>resolved := True\<rparr> else is ! k)"
    if "k < length is" for k
    using that by (cases "k = i") simp_all
  from Cons.IH [of ?is1] l show ?case
    by (auto simp: n)
qed

lemma length_mark_resolved: "length (mark_resolved idxs is) = length is"
  using fold_mark_resolved [of idxs "is"] by (simp add: mark_resolved_def)

lemma mark_resolved_nth:
  "k < length is \<Longrightarrow>
     mark_resolved idxs is ! k = (if k \<in> set idxs then (is ! k)\<lparr>resolved := True\<rparr> else is ! k)"
  using fold_mark_resolved [of idxs "is"] by (simp add: mark_resolved_def)

lemma version_set_section: "version (set_section d t c) = version d"
  by (simp add: set_section_def update_word_count_def)

text \<open>The three ways \<open>_edit_section\<close> can end.\<close>

lemma edit_section_cases:
  assumes "edit_section llm d t idxs is w = (r, w')"
  shows "(get_section d t = [] \<and> (\<exists>res. r = Inr (res, d, is) \<and> \<not> success res)
            \<and> w' = w\<lparr>log := log w @ [EditingIssues (length idxs) t]\<rparr>)
       \<or> (get_section d t \<noteq> []
            \<and> (\<exists>res c s'. r = Inr (res, set_section d t c, mark_resolved idxs is) \<and> success res
                  \<and> llm (llm_state w)
                       (EditSectionPrompt (map (\<lambda>i. is ! i) idxs) (get_section d t))
                       (int (length (py_split (get_section d t))) * 2) = (Inr c, s')
                  \<and> w' = w\<lparr>log := log w @ [EditingIssues (length idxs) t], llm_state := s'\<rparr>))
       \<or> (get_section d t \<noteq> []
            \<and> (\<exists>e s'. r = Inl e
                  \<and> llm (llm_state w)
                       (EditSectionPrompt (map (\<lambda>i. is ! i) idxs) (get_section d t))
                       (int (length (py_split (get_section d t))) * 2) = (Inl e, s')
                  \<and> w' = w\<lparr>log := log w @ [EditingIssues (length idxs) t, GenerationFailed e],
                           llm_state := s'\<rparr>))"
proof (cases "get_section d t = []")
  case True
  then show ?thesis
    using assms by (auto simp: edit_section_def io_bind_def io_log_def io_return_def)
next
  case False
  let ?w1 = "w\<lparr>log := log w @ [EditingIssues (length idxs) t]\<rparr>"
  let ?p = "EditSectionPrompt (map (\<lambda>i. is ! i) idxs) (get_section d t)"
  let ?m = "int (length (py_split (get_section d t))) * 2"
  obtain x s' where l: "llm (llm_state w) ?p ?m = (x, s')" by (cases "llm (llm_state w) ?p ?m")
  show ?thesis
  proof (cases x)
    case (Inl e)
    then have "generate llm ?p ?m ?w1 = (Inl e, ?w1\<lparr>llm_state := s', log := log ?w1 @ [GenerationFailed e]\<rparr>)"
      using l by (simp add: generate_def)
    then have "edit_section llm d t idxs is w
                 = (Inl e, ?w1\<lparr>llm_state := s', log := log ?w1 @ [GenerationFailed e]\<rparr>)"
      using False by (simp add: edit_section_def io_bind_def io_log_def Let_def)
    then show ?thesis using assms False l Inl by auto
  next
    case (Inr c)
    then have "generate llm ?p ?m ?w1 = (Inr c, ?w1\<lparr>llm_state := s'\<rparr>)"
      using l by (simp add: generate_def)
    then have "\<exists>res. success res \<and> edit_section llm d t idxs is w
                 = (Inr (res, set_section d t c, mark_resolved idxs is), ?w1\<lparr>llm_state := s'\<rparr>)"
      using False by (simp add: edit_section_def io_bind_def io_log_def io_return_def Let_def)
    then show ?thesis using assms False l Inr by auto
  qed
qed

text \<open>One turn of the editing loop.\<close>

lemma edit_group_Inr:
  assumes "edit_group llm (s, idxs) (d, is, se, tot) w = (Inr (d', is', se', tot'), w')"
  shows "\<exists>new. log w' = log w @ new \<and> calls new = []
           \<and> ((SectionType_of s = None \<and> d' = d \<and> is' = is \<and> UnknownSectionType s \<in> set new)
              \<or> (\<exists>t. SectionType_of s = Some t \<and> EditingIssues (length idxs) t \<in> set new
                     \<and> ((d' = d \<and> is' = is)
                        \<or> (get_section d t \<noteq> [] \<and> is' = mark_resolved idxs is
                             \<and> (\<exists>c. d' = set_section d t c)))))"
proof (cases "SectionType_of s")
  case None
  then have "w' = w\<lparr>log := log w @ [UnknownSectionType s]\<rparr>" "d' = d" "is' = is"
    using assms by (simp_all add: edit_group_def io_bind_def io_log_def io_return_def)
  then have "log w' = log w @ [UnknownSectionType s] \<and> calls [UnknownSectionType s] = []
               \<and> SectionType_of s = None \<and> d' = d \<and> is' = is
               \<and> UnknownSectionType s \<in> set [UnknownSectionType s]"
    using None by simp
  then show ?thesis by blast
next
  case (Some t)
  obtain r w1 where es: "edit_section llm d t idxs is w = (r, w1)"
    by (cases "edit_section llm d t idxs is w")
  from edit_section_cases [OF es]
  consider
    (empty) res where "get_section d t = []" "r = Inr (res, d, is)" "\<not> success res"
      "w1 = w\<lparr>log := log w @ [EditingIssues (length idxs) t]\<rparr>"
  | (edited) res c s' where "get_section d t \<noteq> []"
      "r = Inr (res, set_section d t c, mark_resolved idxs is)" "success res"
      "w1 = w\<lparr>log := log w @ [EditingIssues (length idxs) t], llm_state := s'\<rparr>"
  | (failed) e s' where "r = Inl e"
      "w1 = w\<lparr>log := log w @ [EditingIssues (length idxs) t, GenerationFailed e], llm_state := s'\<rparr>"
    by blast
  then show ?thesis
  proof cases
    case empty
    then have "w' = w1" "d' = d" "is' = is"
      using assms Some es by (simp_all add: edit_group_def)
    then have "log w' = log w @ [EditingIssues (length idxs) t]
                 \<and> calls [EditingIssues (length idxs) t] = []
                 \<and> EditingIssues (length idxs) t \<in> set [EditingIssues (length idxs) t]
                 \<and> d' = d \<and> is' = is"
      using empty by simp
    then show ?thesis using Some by blast
  next
    case edited
    then have "w' = w1" "d' = set_section d t c" "is' = mark_resolved idxs is"
      using assms Some es by (simp_all add: edit_group_def)
    then have "log w' = log w @ [EditingIssues (length idxs) t]
                 \<and> calls [EditingIssues (length idxs) t] = []
                 \<and> EditingIssues (length idxs) t \<in> set [EditingIssues (length idxs) t]
                 \<and> get_section d t \<noteq> [] \<and> is' = mark_resolved idxs is
                 \<and> d' = set_section d t c"
      using edited by simp
    then show ?thesis using Some by blast
  next
    case failed
    have e: "e = ValueError"
      using assms Some es failed(1)
      by (cases e) (simp_all add: edit_group_def)
    then have "w' = w1\<lparr>log := log w1 @ [UnknownSectionType s]\<rparr>" "d' = d" "is' = is"
      using assms Some es failed(1)
      by (simp_all add: edit_group_def io_bind_def io_log_def io_return_def)
    then have "log w' = log w @ [EditingIssues (length idxs) t, GenerationFailed e, UnknownSectionType s]
                 \<and> calls [EditingIssues (length idxs) t, GenerationFailed e, UnknownSectionType s] = []
                 \<and> EditingIssues (length idxs) t
                      \<in> set [EditingIssues (length idxs) t, GenerationFailed e, UnknownSectionType s]
                 \<and> d' = d \<and> is' = is"
      using failed by simp
    then show ?thesis using Some by blast
  qed
qed

lemma edit_group_Inl:
  assumes "edit_group llm (s, idxs) (d, is, se, tot) w = (Inl e, w')"
  shows "e \<noteq> ValueError \<and> (\<exists>s0 p m s'. llm s0 p m = (Inl e, s'))
         \<and> (\<exists>new. log w' = log w @ new \<and> calls new = [])"
proof (cases "SectionType_of s")
  case None
  then show ?thesis
    using assms by (simp add: edit_group_def io_bind_def io_log_def io_return_def)
next
  case (Some t)
  obtain r w1 where es: "edit_section llm d t idxs is w = (r, w1)"
    by (cases "edit_section llm d t idxs is w")
  show ?thesis
  proof (cases r)
    case (Inr x)
    then show ?thesis
      using assms Some es by (cases x) (auto simp: edit_group_def split: if_splits)
  next
    case (Inl e1)
    have ne: "e1 \<noteq> ValueError"
      using assms Some es Inl
      by (cases e1) (simp_all add: edit_group_def io_bind_def io_log_def io_return_def)
    then have r: "e = e1" "w' = w1"
      using assms Some es Inl by (cases e1; simp add: edit_group_def)+
    from edit_section_cases [OF es] Inl obtain s' where
      l: "llm (llm_state w) (EditSectionPrompt (map (\<lambda>i. is ! i) idxs) (get_section d t))
            (int (length (py_split (get_section d t))) * 2) = (Inl e1, s')"
      and w1: "w1 = w\<lparr>log := log w @ [EditingIssues (length idxs) t, GenerationFailed e1],
                       llm_state := s'\<rparr>"
      by auto
    have "log w' = log w @ [EditingIssues (length idxs) t, GenerationFailed e1]
            \<and> calls [EditingIssues (length idxs) t, GenerationFailed e1] = []"
      using w1 r by simp
    then show ?thesis using ne r l by blast
  qed
qed


text \<open>The whole editing loop, when it comes to its end.\<close>

lemma edit_groups_Inr:
  assumes "edit_groups llm grps (d, is, se, tot) w = (Inr (d', is', se', tot'), w')"
  shows "version d' = version d \<and> length is' = length is
       \<and> (\<forall>k < length is.
             is' ! k = is ! k
             \<or> (is' ! k = (is ! k)\<lparr>resolved := True\<rparr>
                 \<and> (\<exists>s idxs t. (s, idxs) \<in> set grps \<and> k \<in> set idxs \<and> SectionType_of s = Some t)))
       \<and> (\<exists>new. log w' = log w @ new \<and> calls new = []
             \<and> (\<forall>s idxs. (s, idxs) \<in> set grps \<longrightarrow>
                   (SectionType_of s = None \<and> UnknownSectionType s \<in> set new)
                   \<or> (\<exists>t. SectionType_of s = Some t \<and> EditingIssues (length idxs) t \<in> set new)))"
  using assms
proof (induction grps arbitrary: d "is" se tot w)
  case Nil
  then have "d' = d" "is' = is" "w' = w" by simp_all
  then have "log w' = log w @ [] \<and> calls [] = []" by simp
  then show ?case using \<open>d' = d\<close> \<open>is' = is\<close> by auto
next
  case (Cons grp grps)
  obtain s idxs where grp: "grp = (s, idxs)" by (cases grp)
  obtain r1 w1 where step: "edit_group llm (s, idxs) (d, is, se, tot) w = (r1, w1)"
    by (cases "edit_group llm (s, idxs) (d, is, se, tot) w")
  from Cons.prems grp step obtain st1 where r1: "r1 = Inr st1"
    by (cases r1) auto
  obtain d1 is1 se1 tot1 where st1: "st1 = (d1, is1, se1, tot1)"
    using prod_cases4 [of st1] by blast
  have rest: "edit_groups llm grps (d1, is1, se1, tot1) w1 = (Inr (d', is', se', tot'), w')"
    using Cons.prems grp step r1 st1 by simp
  from edit_group_Inr [OF step [unfolded r1 st1]] obtain new1 where
    n1: "log w1 = log w @ new1" "calls new1 = []"
    and h: "(SectionType_of s = None \<and> d1 = d \<and> is1 = is \<and> UnknownSectionType s \<in> set new1)
              \<or> (\<exists>t. SectionType_of s = Some t \<and> EditingIssues (length idxs) t \<in> set new1
                     \<and> ((d1 = d \<and> is1 = is)
                        \<or> (get_section d t \<noteq> [] \<and> is1 = mark_resolved idxs is
                             \<and> (\<exists>c. d1 = set_section d t c))))"
    by blast
  from Cons.IH [OF rest] obtain new2 where
    v2: "version d' = version d1" and l2: "length is' = length is1"
    and k2: "\<forall>k < length is1.
             is' ! k = is1 ! k
             \<or> (is' ! k = (is1 ! k)\<lparr>resolved := True\<rparr>
                 \<and> (\<exists>s idxs t. (s, idxs) \<in> set grps \<and> k \<in> set idxs \<and> SectionType_of s = Some t))"
    and n2: "log w' = log w1 @ new2" "calls new2 = []"
    and g2: "\<forall>s idxs. (s, idxs) \<in> set grps \<longrightarrow>
                   (SectionType_of s = None \<and> UnknownSectionType s \<in> set new2)
                   \<or> (\<exists>t. SectionType_of s = Some t \<and> EditingIssues (length idxs) t \<in> set new2)"
    by blast
  have v1: "version d1 = version d" using h by (auto simp: version_set_section)
  have l1: "length is1 = length is" using h by (auto simp: length_mark_resolved)
  have k1: "is1 ! k = is ! k
             \<or> (is1 ! k = (is ! k)\<lparr>resolved := True\<rparr>
                 \<and> k \<in> set idxs \<and> (\<exists>t. SectionType_of s = Some t))"
    if "k < length is" for k
    using h that by (auto simp: mark_resolved_nth split: if_splits)
  have K: "is' ! k = is ! k
             \<or> (is' ! k = (is ! k)\<lparr>resolved := True\<rparr>
                 \<and> (\<exists>s idxs t. (s, idxs) \<in> set (grp # grps) \<and> k \<in> set idxs
                       \<and> SectionType_of s = Some t))"
    if kl: "k < length is" for k
  proof -
    from k1 [OF kl] consider
      (same) "is1 ! k = is ! k"
      | (marked) t where "is1 ! k = (is ! k)\<lparr>resolved := True\<rparr>" "k \<in> set idxs"
          "SectionType_of s = Some t"
      by blast
    then show ?thesis
    proof cases
      case same
      from k2 kl l1 have "is' ! k = is1 ! k
             \<or> (is' ! k = (is1 ! k)\<lparr>resolved := True\<rparr>
                 \<and> (\<exists>s idxs t. (s, idxs) \<in> set grps \<and> k \<in> set idxs \<and> SectionType_of s = Some t))"
        by simp
      then show ?thesis using same by auto
    next
      case marked
      from k2 kl l1 have "is' ! k = is1 ! k \<or> is' ! k = (is1 ! k)\<lparr>resolved := True\<rparr>"
        by auto
      then have "is' ! k = (is ! k)\<lparr>resolved := True\<rparr>" using marked(1) by auto
      moreover have "(s, idxs) \<in> set (grp # grps)" using grp by simp
      ultimately show ?thesis using marked(2,3) by blast
    qed
  qed
  have L: "log w' = log w @ (new1 @ new2)" "calls (new1 @ new2) = []"
    using n1 n2 by (simp_all add: calls_append)
  have G: "(SectionType_of s' = None \<and> UnknownSectionType s' \<in> set (new1 @ new2))
             \<or> (\<exists>t. SectionType_of s' = Some t
                    \<and> EditingIssues (length idxs') t \<in> set (new1 @ new2))"
    if "(s', idxs') \<in> set (grp # grps)" for s' idxs'
  proof (cases "(s', idxs') = grp")
    case True
    then have "s' = s" "idxs' = idxs" using grp by simp_all
    then show ?thesis using h by auto
  next
    case False
    then have "(s', idxs') \<in> set grps" using that by simp
    then show ?thesis using g2 by auto
  qed
  from v1 v2 l1 l2 K L G show ?case by (intro conjI exI [of _ "new1 @ new2"]) auto
qed

lemma edit_groups_total:
  assumes "llm_raises_at_most_ValueError llm"
  shows "\<exists>st' w'. edit_groups llm grps (d, is, se, tot) w = (Inr st', w')"
proof (induction grps arbitrary: d "is" se tot w)
  case Nil
  then show ?case by simp
next
  case (Cons grp grps)
  obtain s idxs where grp: "grp = (s, idxs)" by (cases grp)
  obtain r1 w1 where step: "edit_group llm (s, idxs) (d, is, se, tot) w = (r1, w1)"
    by (cases "edit_group llm (s, idxs) (d, is, se, tot) w")
  show ?case
  proof (cases r1)
    case (Inl e)
    from edit_group_Inl [OF step [unfolded Inl]] assms have False
      unfolding llm_raises_at_most_ValueError_def by blast
    then show ?thesis ..
  next
    case (Inr st1)
    obtain d1 is1 se1 tot1 where st1: "st1 = (d1, is1, se1, tot1)"
      using prod_cases4 [of st1] by blast
    show ?thesis using Cons.IH [of d1 is1 se1 tot1 w1] step grp Inr st1 by simp
  qed
qed

lemma edit_groups_Inl:
  assumes "edit_groups llm grps (d, is, se, tot) w = (Inl e, w')"
  shows "\<exists>new. log w' = log w @ new \<and> calls new = []"
  using assms
proof (induction grps arbitrary: d "is" se tot w)
  case Nil
  then show ?case by simp
next
  case (Cons grp grps)
  obtain s idxs where grp: "grp = (s, idxs)" by (cases grp)
  obtain r1 w1 where step: "edit_group llm (s, idxs) (d, is, se, tot) w = (r1, w1)"
    by (cases "edit_group llm (s, idxs) (d, is, se, tot) w")
  show ?case
  proof (cases r1)
    case (Inl e1)
    then have "w' = w1" using Cons.prems grp step by simp
    then show ?thesis using edit_group_Inl [OF step [unfolded Inl]] by simp
  next
    case (Inr st1)
    obtain d1 is1 se1 tot1 where st1: "st1 = (d1, is1, se1, tot1)"
    using prod_cases4 [of st1] by blast
    from edit_group_Inr [OF step [unfolded Inr st1]] obtain new1 where
      n1: "log w1 = log w @ new1" "calls new1 = []" by blast
    have "edit_groups llm grps (d1, is1, se1, tot1) w1 = (Inl e, w')"
      using Cons.prems grp step Inr st1 by simp
    from Cons.IH [OF this] obtain new2 where "log w' = log w1 @ new2" "calls new2 = []"
      by blast
    then have "log w' = log w @ (new1 @ new2) \<and> calls (new1 @ new2) = []"
      using n1 by (simp add: calls_append)
    then show ?thesis by blast
  qed
qed

text \<open>\<open>_apply_all_fixes\<close> is the editing loop, then the version increment.\<close>

lemma apply_all_fixes_Inr:
  assumes "apply_all_fixes llm d fb w = (Inr (result, d', fb'), w')"
  shows "\<exists>d1 is1 se tot.
           edit_groups llm (issues_by_section (issues fb)) (d, issues fb, [], 0)
             (w\<lparr>log := log w @ [ApplyingFixes (length (issues fb))]\<rparr>)
             = (Inr (d1, is1, se, tot), w')
           \<and> d' = d1\<lparr>version := version d1 + 1\<rparr> \<and> fb' = fb\<lparr>issues := is1\<rparr>
           \<and> success result
           \<and> data result = Some \<lparr>draft_key = d', sections_edited_key = se, issues_fixed = tot,
                                  draft_version = version d', ready_for_review = True\<rparr>"
  using assms
  by (auto simp: apply_all_fixes_def io_bind_def io_log_def io_return_def Let_def
           split: prod.splits sum.splits)

lemma apply_all_fixes_total:
  assumes "llm_raises_at_most_ValueError llm"
  shows "\<exists>x w'. apply_all_fixes llm d fb w = (Inr x, w')"
proof -
  obtain st' w' where
    "edit_groups llm (issues_by_section (issues fb)) (d, issues fb, [], 0)
       (w\<lparr>log := log w @ [ApplyingFixes (length (issues fb))]\<rparr>) = (Inr st', w')"
    using edit_groups_total [OF assms] by blast
  then show ?thesis
    by (cases st') (simp add: apply_all_fixes_def io_bind_def io_log_def io_return_def Let_def)
qed




lemma count_resolved_mono:
  "length xs = length ys \<Longrightarrow> \<forall>k < length xs. resolved (xs ! k) \<longrightarrow> resolved (ys ! k)
     \<Longrightarrow> length (filter resolved xs) \<le> length (filter resolved ys)"
proof (induction xs ys rule: list_induct2)
  case Nil
  then show ?case by simp
next
  case (Cons x xs y ys)
  have "\<forall>k < length xs. resolved (xs ! k) \<longrightarrow> resolved (ys ! k)"
  proof (intro allI impI)
    fix k assume "k < length xs" "resolved (xs ! k)"
    then show "resolved (ys ! k)" using Cons.prems [rule_format, of "Suc k"] by simp
  qed
  then have "length (filter resolved xs) \<le> length (filter resolved ys)" by (rule Cons.IH)
  moreover have "resolved x \<longrightarrow> resolved y" using Cons.prems [rule_format, of 0] by simp
  ultimately show ?case by auto
qed

lemma issues_by_section_all_resolved:
  assumes "\<forall>i \<in> set is. resolved i"
  shows "issues_by_section is = []"
proof -
  have "fst ` set (group_issues is) = {}"
    using assms by (auto simp: group_issues_keys)
  then have "group_issues is = []" by simp
  then show ?thesis by (simp add: issues_by_section_def)
qed

lemma apply_all_fixes_effect:
  assumes "apply_all_fixes llm d fb w = (Inr (result, d', fb'), w')"
  shows "success result \<and> version d' = version d + 1
       \<and> (\<exists>dat. data result = Some dat \<and> draft_version dat = version d + 1)
       \<and> fb' = fb\<lparr>issues := issues fb'\<rparr> \<and> length (issues fb') = length (issues fb)
       \<and> (\<forall>k < length (issues fb).
             issues fb' ! k = issues fb ! k
             \<or> (issues fb' ! k = (issues fb ! k)\<lparr>resolved := True\<rparr>
                 \<and> (\<exists>s idxs t. (s, idxs) \<in> set (issues_by_section (issues fb))
                       \<and> k \<in> set idxs \<and> SectionType_of s = Some t)))
       \<and> (\<exists>new. log w' = log w @ ApplyingFixes (length (issues fb)) # new \<and> calls new = []
             \<and> (\<forall>s idxs. (s, idxs) \<in> set (issues_by_section (issues fb)) \<longrightarrow>
                   (SectionType_of s = None \<and> UnknownSectionType s \<in> set new)
                   \<or> (\<exists>t. SectionType_of s = Some t \<and> EditingIssues (length idxs) t \<in> set new)))"
proof -
  let ?w0 = "w\<lparr>log := log w @ [ApplyingFixes (length (issues fb))]\<rparr>"
  from apply_all_fixes_Inr [OF assms] obtain d1 is1 se tot where
    run: "edit_groups llm (issues_by_section (issues fb)) (d, issues fb, [], 0) ?w0
            = (Inr (d1, is1, se, tot), w')"
    and d': "d' = d1\<lparr>version := version d1 + 1\<rparr>" and fb': "fb' = fb\<lparr>issues := is1\<rparr>"
    and res: "success result"
      "data result = Some \<lparr>draft_key = d', sections_edited_key = se, issues_fixed = tot,
                            draft_version = version d', ready_for_review = True\<rparr>"
    by blast
  from edit_groups_Inr [OF run] obtain new where
    v: "version d1 = version d" and l: "length is1 = length (issues fb)"
    and k: "\<forall>k < length (issues fb).
             is1 ! k = issues fb ! k
             \<or> (is1 ! k = (issues fb ! k)\<lparr>resolved := True\<rparr>
                 \<and> (\<exists>s idxs t. (s, idxs) \<in> set (issues_by_section (issues fb))
                       \<and> k \<in> set idxs \<and> SectionType_of s = Some t))"
    and n: "log w' = log ?w0 @ new" "calls new = []"
    and g: "\<forall>s idxs. (s, idxs) \<in> set (issues_by_section (issues fb)) \<longrightarrow>
                   (SectionType_of s = None \<and> UnknownSectionType s \<in> set new)
                   \<or> (\<exists>t. SectionType_of s = Some t \<and> EditingIssues (length idxs) t \<in> set new)"
    by blast
  have 1: "version d' = version d + 1" using d' v by simp
  have 2: "\<exists>dat. data result = Some dat \<and> draft_version dat = version d + 1"
    using res(2) 1 by simp
  have 3: "fb' = fb\<lparr>issues := issues fb'\<rparr>" "length (issues fb') = length (issues fb)"
    using fb' l by simp_all
  have 4: "\<forall>k < length (issues fb).
             issues fb' ! k = issues fb ! k
             \<or> (issues fb' ! k = (issues fb ! k)\<lparr>resolved := True\<rparr>
                 \<and> (\<exists>s idxs t. (s, idxs) \<in> set (issues_by_section (issues fb))
                       \<and> k \<in> set idxs \<and> SectionType_of s = Some t))"
    using k fb' by simp
  have 5: "log w' = log w @ ApplyingFixes (length (issues fb)) # new" using n(1) by simp
  from res(1) 1 2 3 4 5 n(2) g show ?thesis by blast
qed

text \<open>
  C4.  A call of \<open>apply_all_fixes\<close> comes to its end whenever the language model fails
  with nothing but \<open>ValueError\<close>.  When it comes to its end it succeeds, the draft's
  version is one more than before, each issue is as it was or is the same issue marked
  resolved, so no resolved flag goes back to false and the number of resolved issues does
  not go down.  When every issue is resolved already, no section is touched, and the
  version is incremented all the same.
\<close>

theorem apply_all_fixes_version:
  "(llm_raises_at_most_ValueError llm \<longrightarrow> (\<exists>x w'. apply_all_fixes llm d fb w = (Inr x, w')))
   \<and> (\<forall>result d' fb' w'. apply_all_fixes llm d fb w = (Inr (result, d', fb'), w') \<longrightarrow>
         success result \<and> version d' = version d + 1
         \<and> (\<exists>dat. data result = Some dat \<and> draft_version dat = version d + 1)
         \<and> fb' = fb\<lparr>issues := issues fb'\<rparr> \<and> length (issues fb') = length (issues fb)
         \<and> (\<forall>k < length (issues fb).
               issues fb' ! k = issues fb ! k
               \<or> issues fb' ! k = (issues fb ! k)\<lparr>resolved := True\<rparr>)
         \<and> (\<forall>k < length (issues fb). resolved (issues fb ! k) \<longrightarrow> resolved (issues fb' ! k))
         \<and> length (filter resolved (issues fb)) \<le> length (filter resolved (issues fb')))
   \<and> ((\<forall>i \<in> set (issues fb). resolved i) \<longrightarrow>
         (\<exists>result. apply_all_fixes llm d fb w
            = (Inr (result, d\<lparr>version := version d + 1\<rparr>, fb),
               w\<lparr>log := log w @ [ApplyingFixes (length (issues fb))]\<rparr>)))"
proof (intro conjI allI impI)
  assume "llm_raises_at_most_ValueError llm"
  then show "\<exists>x w'. apply_all_fixes llm d fb w = (Inr x, w')" by (rule apply_all_fixes_total)
next
  fix result d' fb' w'
  assume run: "apply_all_fixes llm d fb w = (Inr (result, d', fb'), w')"
  note e = apply_all_fixes_effect [OF run]
  from e show "success result" by blast
  from e show "version d' = version d + 1" by blast
  from e show "\<exists>dat. data result = Some dat \<and> draft_version dat = version d + 1" by blast
  from e show "fb' = fb\<lparr>issues := issues fb'\<rparr>" by blast
  from e show len: "length (issues fb') = length (issues fb)" by blast
  from e have k: "\<forall>k < length (issues fb).
               issues fb' ! k = issues fb ! k
               \<or> issues fb' ! k = (issues fb ! k)\<lparr>resolved := True\<rparr>" by blast
  have mono: "\<forall>k < length (issues fb). resolved (issues fb ! k) \<longrightarrow> resolved (issues fb' ! k)"
  proof (intro allI impI)
    fix j assume "j < length (issues fb)" "resolved (issues fb ! j)"
    with k have "issues fb' ! j = issues fb ! j
               \<or> issues fb' ! j = (issues fb ! j)\<lparr>resolved := True\<rparr>" by blast
    then show "resolved (issues fb' ! j)" using \<open>resolved (issues fb ! j)\<close> by auto
  qed
  show "length (filter resolved (issues fb)) \<le> length (filter resolved (issues fb'))"
    using len mono by (intro count_resolved_mono) simp_all
  fix j assume j: "j < length (issues fb)"
  show "issues fb' ! j = issues fb ! j \<or> issues fb' ! j = (issues fb ! j)\<lparr>resolved := True\<rparr>"
    using k j by blast
  assume "resolved (issues fb ! j)"
  then show "resolved (issues fb' ! j)" using mono j by blast
next
  assume "\<forall>i \<in> set (issues fb). resolved i"
  then have "issues_by_section (issues fb) = []" by (rule issues_by_section_all_resolved)
  then show "\<exists>result. apply_all_fixes llm d fb w
            = (Inr (result, d\<lparr>version := version d + 1\<rparr>, fb),
               w\<lparr>log := log w @ [ApplyingFixes (length (issues fb))]\<rparr>)"
    by (simp add: apply_all_fixes_def io_bind_def io_log_def io_return_def Let_def)
qed

lemma apply_all_fixes_example:
  "(case apply_all_fixes llm_one_major example_draft example_feedback world0 of
      (Inr (result, d', fb'), w') \<Rightarrow>
         map resolved (issues fb') = [True, True, True, False]
         \<and> sections d' = [(''introduction'', ''Z is clear''), (''conclusion'', ''Y'')]
         \<and> word_count d' = 4
         \<and> log w' = [ApplyingFixes 4, EditingIssues 3 INTRODUCTION, UnknownSectionType ''cross-section'']
    | (Inl e, w') \<Rightarrow> False)"
  by code_simp

theorem apply_all_fixes_version_witness:
  "(\<exists>result d' fb' w'.
      apply_all_fixes llm_one_major example_draft example_feedback world0 = (Inr (result, d', fb'), w')
      \<and> version d' = 2 \<and> map resolved (issues fb') = [True, True, True, False])
   \<and> (\<exists>result. apply_all_fixes llm_one_major example_draft (example_feedback\<lparr>issues := []\<rparr>) world0
          = (Inr (result, example_draft\<lparr>version := 2\<rparr>, example_feedback\<lparr>issues := []\<rparr>),
             world0\<lparr>log := [ApplyingFixes 0]\<rparr>))"
proof
  note t = apply_all_fixes_version [of llm_one_major example_draft example_feedback world0]
  have "llm_raises_at_most_ValueError llm_one_major"
    by (auto simp: llm_raises_at_most_ValueError_def llm_one_major_def split: prompt.splits)
  with t obtain x w' where
    run0: "apply_all_fixes llm_one_major example_draft example_feedback world0 = (Inr x, w')"
    by blast
  obtain result d' fb' where x: "x = (result, d', fb')" using prod_cases3 [of x] by blast
  note run = run0 [unfolded x]
  from t run have "version d' = version example_draft + 1" by blast
  then have v: "version d' = 2" by (simp add: example_draft_def)
  have r: "map resolved (issues fb') = [True, True, True, False]"
    using apply_all_fixes_example run by simp
  from run v r have
    "apply_all_fixes llm_one_major example_draft example_feedback world0 = (Inr (result, d', fb'), w')
      \<and> version d' = 2 \<and> map resolved (issues fb') = [True, True, True, False]" by simp
  then show "\<exists>result d' fb' w'.
      apply_all_fixes llm_one_major example_draft example_feedback world0 = (Inr (result, d', fb'), w')
      \<and> version d' = 2 \<and> map resolved (issues fb') = [True, True, True, False]"
    by (intro exI)
next
  note t = apply_all_fixes_version
             [of llm_one_major example_draft "example_feedback\<lparr>issues := []\<rparr>" world0]
  have "\<forall>i \<in> set (issues (example_feedback\<lparr>issues := []\<rparr>)). resolved i" by simp
  with t have "\<exists>result. apply_all_fixes llm_one_major example_draft (example_feedback\<lparr>issues := []\<rparr>) world0
            = (Inr (result, example_draft\<lparr>version := version example_draft + 1\<rparr>,
                    example_feedback\<lparr>issues := []\<rparr>),
               world0\<lparr>log := log world0 @ [ApplyingFixes (length (issues (example_feedback\<lparr>issues := []\<rparr>)))]\<rparr>)"
    by blast
  then show "\<exists>result. apply_all_fixes llm_one_major example_draft (example_feedback\<lparr>issues := []\<rparr>) world0
          = (Inr (result, example_draft\<lparr>version := 2\<rparr>, example_feedback\<lparr>issues := []\<rparr>),
             world0\<lparr>log := [ApplyingFixes 0]\<rparr>)"
    by (simp add: example_draft_def world0_def)
qed




subsection \<open>The calls a run records\<close>

lemma calls_between_refl: "calls_between w w []"
  by (simp add: calls_between_def)

lemma calls_between_trans:
  "calls_between w w1 a \<Longrightarrow> calls_between w1 w2 b \<Longrightarrow> calls_between w w2 (a @ b)"
proof -
  assume "calls_between w w1 a" "calls_between w1 w2 b"
  then obtain n1 n2 where "log w1 = log w @ n1" "calls n1 = a" "log w2 = log w1 @ n2" "calls n2 = b"
    unfolding calls_between_def by blast
  then have "log w2 = log w @ (n1 @ n2) \<and> calls (n1 @ n2) = a @ b"
    by (simp add: calls_append)
  then show ?thesis unfolding calls_between_def by blast
qed

lemma calls_between_log: "calls_between w (w\<lparr>log := log w @ [e]\<rparr>) (calls [e])"
  by (simp add: calls_between_def)

lemma calls_between_llm_state:
  "calls_between w w' cs \<Longrightarrow> calls_between w (w'\<lparr>llm_state := s\<rparr>) cs"
  by (simp add: calls_between_def)

lemma generate_calls: "generate llm p m w = (r, w') \<Longrightarrow> calls_between w w' []"
  by (auto simp: generate_def calls_between_def split: prod.splits sum.splits)

lemma review_section_calls:
  "review_section llm t content c w = (r, w') \<Longrightarrow> calls_between w w' []"
proof -
  assume a: "review_section llm t content c w = (r, w')"
  obtain r1 w1 where g: "generate llm (ReviewSectionPrompt t (take 5000 content) c) 2000 w = (r1, w1)"
    by (cases "generate llm (ReviewSectionPrompt t (take 5000 content) c) 2000 w")
  then have "w' = w1"
    using a by (cases r1) (simp_all add: review_section_def io_bind_def io_return_def)
  then show ?thesis using generate_calls [OF g] by simp
qed

lemma review_sections_calls:
  "review_sections llm d c ts acc w = (r, w') \<Longrightarrow> calls_between w w' []"
proof (induction ts arbitrary: acc w)
  case Nil
  then show ?case by (simp add: calls_between_refl)
next
  case (Cons t ts)
  show ?case
  proof (cases "get_section d t = []")
    case True
    then show ?thesis using Cons by simp
  next
    case False
    obtain r1 w1 where rs: "review_section llm t (get_section d t) c w = (r1, w1)"
      by (cases "review_section llm t (get_section d t) c w")
    note c1 = review_section_calls [OF rs]
    show ?thesis
    proof (cases r1)
      case (Inl e)
      then have "w' = w1" using Cons.prems False rs by simp
      then show ?thesis using c1 by simp
    next
      case (Inr is1)
      then have "review_sections llm d c ts (acc @ is1) w1 = (r, w')"
        using Cons.prems False rs by simp
      from calls_between_trans [OF c1 Cons.IH [OF this]] show ?thesis by simp
    qed
  qed
qed

lemma check_consistency_calls:
  "check_consistency llm d w = (r, w') \<Longrightarrow> calls_between w w' []"
proof -
  assume a: "check_consistency llm d w = (r, w')"
  let ?p = "ConsistencyPrompt (get_section d ABSTRACT) (take 1000 (get_section d INTRODUCTION))
              (take 1000 (get_section d CONCLUSION))"
  obtain r1 w1 where g: "generate llm ?p 1000 w = (r1, w1)"
    by (cases "generate llm ?p 1000 w")
  then have "w' = w1"
    using a by (cases r1) (simp_all add: check_consistency_def Let_def io_bind_def io_return_def)
  then show ?thesis using generate_calls [OF g] by simp
qed

lemma review_calls:
  assumes "review llm d c w = (r, w')"
  shows "calls_between w w' [ReviewCall c]"
proof -
  let ?w0 = "w\<lparr>log := log w @ [StartingReviewCycle c]\<rparr>"
  have c0: "calls_between w ?w0 [ReviewCall c]"
    using calls_between_log [of w "StartingReviewCycle c"] by simp
  obtain r1 w1 where rs: "review_sections llm d c all_section_types [] ?w0 = (r1, w1)"
    by (cases "review_sections llm d c all_section_types [] ?w0")
  note c1 = calls_between_trans [OF c0 review_sections_calls [OF rs]]
  show ?thesis
  proof (cases r1)
    case (Inl e)
    then have "w' = w1" using assms rs by (simp add: review_def io_bind_def io_log_def)
    then show ?thesis using c1 by simp
  next
    case (Inr is1)
    obtain r2 w2 where cc: "check_consistency llm d w1 = (r2, w2)"
      by (cases "check_consistency llm d w1")
    note c2 = calls_between_trans [OF c1 check_consistency_calls [OF cc]]
    show ?thesis
    proof (cases r2)
      case (Inl e)
      then have "w' = w2"
        using assms rs Inr cc by (simp add: review_def io_bind_def io_log_def)
      then show ?thesis using c2 by simp
    next
      case (Inr is2)
      have "w' = w2 \<or> w' = w2\<lparr>log := log w2 @ [FirstCycleNoApproval]\<rparr>"
        using assms rs \<open>r1 = Inr is1\<close> cc Inr
        by (auto simp: review_def io_bind_def io_log_def io_return_def Let_def split: if_splits)
      then show ?thesis
      proof
        assume "w' = w2" then show ?thesis using c2 by simp
      next
        assume "w' = w2\<lparr>log := log w2 @ [FirstCycleNoApproval]\<rparr>"
        then show ?thesis
          using calls_between_trans [OF c2 calls_between_log [of w2 FirstCycleNoApproval]] by simp
      qed
    qed
  qed
qed

lemma reviewer_execute_review_calls:
  assumes "reviewer_execute_review llm dopt c w = (r, w')"
  shows "calls_between w w' [ReviewCall c]"
proof (cases dopt)
  case None
  then have "w' = w\<lparr>log := log w @ [StartingReviewCycle c]\<rparr>"
    using assms by (simp add: reviewer_execute_review_def io_bind_def io_log_def io_raise_def)
  then show ?thesis using calls_between_log [of w "StartingReviewCycle c"] by simp
next
  case (Some d)
  then show ?thesis using assms review_calls by (simp add: reviewer_execute_review_def)
qed

lemma apply_all_fixes_calls:
  assumes "apply_all_fixes llm d fb w = (r, w')"
  shows "calls_between w w' [EditCall]"
proof -
  let ?w0 = "w\<lparr>log := log w @ [ApplyingFixes (length (issues fb))]\<rparr>"
  have c0: "calls_between w ?w0 [EditCall]"
    using calls_between_log [of w "ApplyingFixes (length (issues fb))"] by simp
  obtain r1 w1 where eg:
    "edit_groups llm (issues_by_section (issues fb)) (d, issues fb, [], 0) ?w0 = (r1, w1)"
    by (cases "edit_groups llm (issues_by_section (issues fb)) (d, issues fb, [], 0) ?w0")
  have w': "w' = w1"
    using assms eg
    by (cases r1) (auto simp: apply_all_fixes_def io_bind_def io_log_def io_return_def Let_def
                        split: prod.splits)
  have "calls_between ?w0 w1 []"
  proof (cases r1)
    case (Inl e)
    then show ?thesis using edit_groups_Inl [OF eg [unfolded Inl]] by (simp add: calls_between_def)
  next
    case (Inr st1)
    obtain d1 is1 se1 tot1 where st1: "st1 = (d1, is1, se1, tot1)"
      using prod_cases4 [of st1] by blast
    from edit_groups_Inr [OF eg [unfolded Inr st1]] show ?thesis
      unfolding calls_between_def by blast
  qed
  from calls_between_trans [OF c0 this] w' show ?thesis by simp
qed


subsection \<open>The review-edit loop\<close>

lemma calls_Progress: "calls [Progress a b c] = []"
  by simp

lemma edit_pass_result:
  assumes "edit_pass llm c d fb st w = (r, w')"
  shows "calls_between w w' [EditCall]
       \<and> (\<forall>st'. r = Inr st' \<longrightarrow>
             (\<exists>d' fb'. state_draft st' = Some d' \<and> version d' = version d + 1
                 \<and> state_feedback st' = Some fb' \<and> approved fb' = approved fb
                 \<and> cycle fb' = cycle fb \<and> state_review_cycle st' = state_review_cycle st))"
proof -
  let ?e1 = "Progress ''editing'' (75 + c * 5) (''Editing cycle '' @ py_str c)"
  let ?w0 = "w\<lparr>log := log w @ [?e1]\<rparr>"
  have c0: "calls_between w ?w0 []"
    using calls_between_log [of w ?e1] by (simp del: calls.simps add: calls_Progress)
  obtain ar w1 where ap: "apply_all_fixes llm d fb ?w0 = (ar, w1)"
    by (cases "apply_all_fixes llm d fb ?w0")
  note c1 = calls_between_trans [OF c0 apply_all_fixes_calls [OF ap]]
  show ?thesis
  proof (cases ar)
    case (Inl e)
    then have "r = Inl e" "w' = w1"
      using assms ap
      by (simp_all add: edit_pass_def Let_def io_bind_def report_progress_def io_log_def)
    then show ?thesis using c1 by simp
  next
    case (Inr x)
    obtain eres d' fb' where x: "x = (eres, d', fb')" using prod_cases3 [of x] by blast
    note e = apply_all_fixes_effect [OF ap [unfolded Inr x]]
    from e obtain dat where ok: "success eres" "data eres = Some dat"
      and v: "version d' = version d + 1" and f: "fb' = fb\<lparr>issues := issues fb'\<rparr>"
      by blast
    from apply_all_fixes_Inr [OF ap [unfolded Inr x]] ok(2) have dk: "draft_key dat = d'"
      by auto
    let ?e2 = "Progress ''editing'' (78 + c * 5) (''Fixed '' @ py_str (int (issues_fixed dat)) @ '' issues'')"
    have r: "r = Inr ((update_stage st EDITING (75 + c * 5))
                        \<lparr>state_draft := Some d', state_feedback := Some fb'\<rparr>)"
      and w': "w' = w1\<lparr>log := log w1 @ [?e2]\<rparr>"
      using assms ap Inr x ok dk
      by (auto simp: edit_pass_def Let_def io_bind_def report_progress_def io_log_def
                     io_return_def)
    have c2: "calls_between w w' [EditCall]"
      using calls_between_trans [OF c1 calls_between_log [of w1 ?e2]] w'
      by (simp del: calls.simps add: calls_Progress)
    have "approved fb' = approved fb" "cycle fb' = cycle fb"
      using f by (metis ReviewFeedback.select_convs(5) ReviewFeedback.surjective
                        ReviewFeedback.update_convs(3),
                  metis ReviewFeedback.select_convs(2) ReviewFeedback.surjective
                        ReviewFeedback.update_convs(3))
    then show ?thesis using c2 r v by (simp add: update_stage_def)
  qed
qed

text \<open>The loop body after a review that returned.\<close>

lemma review_edit_cycle_after_review:
  assumes "reviewer_execute_review llm (state_draft st) c
             (w\<lparr>log := log w @ [Progress ''review'' (70 + c * 5) (''Review cycle '' @ py_str c)]\<rparr>)
             = (Inr (res, d), w1)"
    and "success res" and "data res = Some dat"
  shows "review_edit_cycle llm min_cycles c st w =
     (let st3 = (update_stage (st\<lparr>state_review_cycle := c\<rparr>) REVIEW (70 + c * 5))
                  \<lparr>state_draft := Some d, state_feedback := Some (feedback dat)\<rparr>;
          w2 = w1\<lparr>log := log w1 @ [Progress ''review'' (72 + c * 5)
                     (''Found '' @ py_str (int (issue_count dat)) @ '' issues'')]\<rparr>
      in if approved_key dat \<and> min_cycles \<le> c
         then (Inr (True, st3), w2\<lparr>log := log w2 @ [Progress ''review'' 90 ''Paper approved'']\<rparr>)
         else (case edit_pass llm c d (feedback dat) st3 w2 of
                 (Inl e, w4) \<Rightarrow> (Inl e, w4)
               | (Inr st4, w4) \<Rightarrow> (Inr (False, st4), w4)))"
  using assms
  by (simp add: review_edit_cycle_def Let_def io_bind_def report_progress_def io_log_def
                io_return_def update_stage_def split: prod.splits sum.splits)

lemma review_edit_cycle_result:
  assumes "review_edit_cycle llm min_cycles c st w = (r, w')"
  shows "(\<exists>e. r = Inl e
            \<and> (calls_between w w' [ReviewCall c] \<or> calls_between w w' [ReviewCall c, EditCall]))
       \<or> (\<exists>st' fb. r = Inr (True, st') \<and> calls_between w w' [ReviewCall c] \<and> min_cycles \<le> c
              \<and> state_feedback st' = Some fb \<and> approved fb \<and> cycle fb = c
              \<and> state_review_cycle st' = c \<and> state_draft st' \<noteq> None)
       \<or> (\<exists>st' fb. r = Inr (False, st') \<and> calls_between w w' [ReviewCall c, EditCall]
              \<and> state_feedback st' = Some fb \<and> cycle fb = c
              \<and> \<not> (approved fb \<and> min_cycles \<le> c)
              \<and> state_review_cycle st' = c \<and> state_draft st' \<noteq> None)"
proof -
  let ?e1 = "Progress ''review'' (70 + c * 5) (''Review cycle '' @ py_str c)"
  let ?w0 = "w\<lparr>log := log w @ [?e1]\<rparr>"
  have c0: "calls_between w ?w0 []"
    using calls_between_log [of w ?e1] by (simp del: calls.simps add: calls_Progress)
  obtain rr w1 where rv: "reviewer_execute_review llm (state_draft st) c ?w0 = (rr, w1)"
    by (cases "reviewer_execute_review llm (state_draft st) c ?w0")
  have c1: "calls_between w w1 [ReviewCall c]"
    using calls_between_trans [OF c0 reviewer_execute_review_calls [OF rv]] by simp
  show ?thesis
  proof (cases rr)
    case (Inl e)
    then have "r = Inl e" "w' = w1"
      using assms rv
      by (simp_all add: review_edit_cycle_def Let_def io_bind_def report_progress_def io_log_def
                        update_stage_def)
    then show ?thesis using c1 by simp
  next
    case (Inr x)
    obtain res d where x: "x = (res, d)" by (cases x)
    note rv' = rv [unfolded Inr x]
    obtain d0 where d0: "state_draft st = Some d0"
      using rv' by (cases "state_draft st")
                   (simp_all add: reviewer_execute_review_def io_bind_def io_log_def io_raise_def)
    then have "review llm d0 c ?w0 = (Inr (res, d), w1)"
      using rv' by (simp add: reviewer_execute_review_def)
    from review_result [OF this] obtain dat where
      dat: "data res = Some dat" "success res" "approved_key dat = approved (feedback dat)"
        "cycle (feedback dat) = c"
      by blast
    let ?st3 = "(update_stage (st\<lparr>state_review_cycle := c\<rparr>) REVIEW (70 + c * 5))
                  \<lparr>state_draft := Some d, state_feedback := Some (feedback dat)\<rparr>"
    let ?e2 = "Progress ''review'' (72 + c * 5) (''Found '' @ py_str (int (issue_count dat)) @ '' issues'')"
    let ?w2 = "w1\<lparr>log := log w1 @ [?e2]\<rparr>"
    let ?e3 = "Progress ''review'' 90 ''Paper approved''"
    have c2: "calls_between w ?w2 [ReviewCall c]"
      using calls_between_trans [OF c1 calls_between_log [of w1 ?e2]]
      by (simp del: calls.simps add: calls_Progress)
    note u = review_edit_cycle_after_review [OF rv' dat(2) dat(1), of min_cycles]
    show ?thesis
    proof (cases "approved_key dat \<and> min_cycles \<le> c")
      case True
      then have r: "r = Inr (True, ?st3)" "w' = ?w2\<lparr>log := log ?w2 @ [?e3]\<rparr>"
        using assms u by (simp_all add: Let_def)
      have "calls_between w w' [ReviewCall c]"
        using calls_between_trans [OF c2 calls_between_log [of ?w2 ?e3]] r(2)
        by (simp del: calls.simps add: calls_Progress)
      then show ?thesis using r(1) True dat by (simp add: update_stage_def)
    next
      case False
      obtain er w4 where ep: "edit_pass llm c d (feedback dat) ?st3 ?w2 = (er, w4)"
        by (cases "edit_pass llm c d (feedback dat) ?st3 ?w2")
      from edit_pass_result [OF ep] have c3: "calls_between ?w2 w4 [EditCall]"
        and st4: "\<forall>st'. er = Inr st' \<longrightarrow>
             (\<exists>d' fb'. state_draft st' = Some d' \<and> version d' = version d + 1
                 \<and> state_feedback st' = Some fb' \<and> approved fb' = approved (feedback dat)
                 \<and> cycle fb' = cycle (feedback dat)
                 \<and> state_review_cycle st' = state_review_cycle ?st3)"
        by blast+
      have c4: "calls_between w w4 [ReviewCall c, EditCall]"
        using calls_between_trans [OF c2 c3] by simp
      show ?thesis
      proof (cases er)
        case (Inl e)
        then have "r = Inl e" "w' = w4" using assms u False ep by (simp_all add: Let_def)
        then show ?thesis using c4 by simp
      next
        case (Inr st')
        then have r: "r = Inr (False, st')" "w' = w4"
          using assms u False ep by (simp_all add: Let_def)
        from st4 Inr obtain d' fb' where
          "state_draft st' = Some d'" "state_feedback st' = Some fb'"
          "approved fb' = approved (feedback dat)" "cycle fb' = cycle (feedback dat)"
          "state_review_cycle st' = state_review_cycle ?st3"
          by blast
        then show ?thesis using r c4 False dat by (simp add: update_stage_def)
      qed
    qed
  qed
qed


lemma cycle_calls_simps:
  "cycle_calls [] = []"
  "cycle_calls (c # cs) = ReviewCall c # EditCall # cycle_calls cs"
  "cycle_calls (xs @ ys) = cycle_calls xs @ cycle_calls ys"
  by (simp_all add: cycle_calls_def)

lemma review_numbers_append:
  "review_numbers (xs @ ys) = review_numbers xs @ review_numbers ys"
  by (induction xs rule: review_numbers.induct) simp_all

lemma review_numbers_cycle_calls: "review_numbers (cycle_calls cs) = cs"
  by (induction cs) (simp_all add: cycle_calls_simps)

text \<open>The loop over the cycle numbers \<open>cs\<close>: how it can end.\<close>

lemma review_edit_cycle_Inl:
  assumes "review_edit_cycle llm min_cycles c st w = (Inl e, w')"
  shows "calls_between w w' [ReviewCall c] \<or> calls_between w w' [ReviewCall c, EditCall]"
  using review_edit_cycle_result [OF assms] by simp

lemma review_edit_cycle_True:
  assumes "review_edit_cycle llm min_cycles c st w = (Inr (True, st'), w')"
  shows "calls_between w w' [ReviewCall c] \<and> min_cycles \<le> c
       \<and> (\<exists>fb. state_feedback st' = Some fb \<and> approved fb \<and> cycle fb = c)
       \<and> state_review_cycle st' = c \<and> state_draft st' \<noteq> None"
  using review_edit_cycle_result [OF assms] by auto

lemma review_edit_cycle_False:
  assumes "review_edit_cycle llm min_cycles c st w = (Inr (False, st'), w')"
  shows "calls_between w w' [ReviewCall c, EditCall]
       \<and> (\<exists>fb. state_feedback st' = Some fb \<and> cycle fb = c
              \<and> \<not> (approved fb \<and> min_cycles \<le> c))
       \<and> state_review_cycle st' = c \<and> state_draft st' \<noteq> None"
  using review_edit_cycle_result [OF assms] by auto

lemma review_edit_cycles_step:
  assumes "review_edit_cycles llm min_cycles (c # cs) st w = (r, w')"
  shows "(\<exists>e. review_edit_cycle llm min_cycles c st w = (Inl e, w') \<and> r = Inl e)
       \<or> (\<exists>st1. review_edit_cycle llm min_cycles c st w = (Inr (True, st1), w')
              \<and> r = Inr (True, st1))
       \<or> (\<exists>st1 w1. review_edit_cycle llm min_cycles c st w = (Inr (False, st1), w1)
              \<and> review_edit_cycles llm min_cycles cs st1 w1 = (r, w'))"
proof -
  obtain r1 w1 where step: "review_edit_cycle llm min_cycles c st w = (r1, w1)"
    by (cases "review_edit_cycle llm min_cycles c st w")
  show ?thesis
  proof (cases r1)
    case (Inl e)
    then show ?thesis using assms step by auto
  next
    case (Inr x)
    obtain b st1 where x: "x = (b, st1)" by (cases x)
    show ?thesis using assms step Inr x by (cases b) auto
  qed
qed

lemma review_edit_cycles_Inl:
  assumes "review_edit_cycles llm min_cycles cs st w = (Inl e, w')"
  shows "\<exists>pre c post. cs = pre @ c # post
           \<and> (calls_between w w' (cycle_calls pre @ [ReviewCall c])
               \<or> calls_between w w' (cycle_calls (pre @ [c])))"
  using assms
proof (induction cs arbitrary: st w)
  case Nil
  then show ?case by simp
next
  case (Cons c cs)
  from review_edit_cycles_step [OF Cons.prems]
  consider (raised) "review_edit_cycle llm min_cycles c st w = (Inl e, w')"
    | (went_on) st1 w1 where "review_edit_cycle llm min_cycles c st w = (Inr (False, st1), w1)"
        "review_edit_cycles llm min_cycles cs st1 w1 = (Inl e, w')"
    by auto
  then show ?case
  proof cases
    case raised
    from review_edit_cycle_Inl [OF raised]
    have "c # cs = [] @ c # cs
           \<and> (calls_between w w' (cycle_calls [] @ [ReviewCall c])
               \<or> calls_between w w' (cycle_calls ([] @ [c])))"
      by (simp add: cycle_calls_simps)
    then show ?thesis by (intro exI)
  next
    case went_on
    from review_edit_cycle_False [OF went_on(1)]
    have c1: "calls_between w w1 [ReviewCall c, EditCall]" by simp
    from Cons.IH [OF went_on(2)] obtain pre c2 post where
      cs: "cs = pre @ c2 # post"
      and t: "calls_between w1 w' (cycle_calls pre @ [ReviewCall c2])
               \<or> calls_between w1 w' (cycle_calls (pre @ [c2]))"
      by blast
    from t have "calls_between w w' (cycle_calls (c # pre) @ [ReviewCall c2])
               \<or> calls_between w w' (cycle_calls ((c # pre) @ [c2]))"
    proof
      assume "calls_between w1 w' (cycle_calls pre @ [ReviewCall c2])"
      from calls_between_trans [OF c1 this] show ?thesis by (simp add: cycle_calls_simps)
    next
      assume "calls_between w1 w' (cycle_calls (pre @ [c2]))"
      from calls_between_trans [OF c1 this] show ?thesis by (simp add: cycle_calls_simps)
    qed
    with cs have "c # cs = (c # pre) @ c2 # post
           \<and> (calls_between w w' (cycle_calls (c # pre) @ [ReviewCall c2])
               \<or> calls_between w w' (cycle_calls ((c # pre) @ [c2])))"
      by simp
    then show ?thesis by (intro exI)
  qed
qed

lemma review_edit_cycles_True:
  assumes "review_edit_cycles llm min_cycles cs st w = (Inr (True, st'), w')"
  shows "\<exists>pre c post. cs = pre @ c # post
           \<and> calls_between w w' (cycle_calls pre @ [ReviewCall c]) \<and> min_cycles \<le> c
           \<and> (\<exists>fb. state_feedback st' = Some fb \<and> approved fb \<and> cycle fb = c)
           \<and> state_review_cycle st' = c \<and> state_draft st' \<noteq> None"
  using assms
proof (induction cs arbitrary: st w)
  case Nil
  then show ?case by simp
next
  case (Cons c cs)
  from review_edit_cycles_step [OF Cons.prems]
  consider (broke) "review_edit_cycle llm min_cycles c st w = (Inr (True, st'), w')"
    | (went_on) st1 w1 where "review_edit_cycle llm min_cycles c st w = (Inr (False, st1), w1)"
        "review_edit_cycles llm min_cycles cs st1 w1 = (Inr (True, st'), w')"
    by auto
  then show ?case
  proof cases
    case broke
    from review_edit_cycle_True [OF broke]
    have "c # cs = [] @ c # cs
           \<and> calls_between w w' (cycle_calls [] @ [ReviewCall c]) \<and> min_cycles \<le> c
           \<and> (\<exists>fb. state_feedback st' = Some fb \<and> approved fb \<and> cycle fb = c)
           \<and> state_review_cycle st' = c \<and> state_draft st' \<noteq> None"
      by (simp add: cycle_calls_simps)
    then show ?thesis by (intro exI)
  next
    case went_on
    from review_edit_cycle_False [OF went_on(1)]
    have c1: "calls_between w w1 [ReviewCall c, EditCall]" by simp
    from Cons.IH [OF went_on(2)] obtain pre c2 post where
      cs: "cs = pre @ c2 # post"
      and t: "calls_between w1 w' (cycle_calls pre @ [ReviewCall c2])"
      and u: "min_cycles \<le> c2"
        "\<exists>fb. state_feedback st' = Some fb \<and> approved fb \<and> cycle fb = c2"
        "state_review_cycle st' = c2" "state_draft st' \<noteq> None"
      by blast
    from calls_between_trans [OF c1 t]
    have "calls_between w w' (cycle_calls (c # pre) @ [ReviewCall c2])"
      by (simp add: cycle_calls_simps)
    with cs u have "c # cs = (c # pre) @ c2 # post
           \<and> calls_between w w' (cycle_calls (c # pre) @ [ReviewCall c2]) \<and> min_cycles \<le> c2
           \<and> (\<exists>fb. state_feedback st' = Some fb \<and> approved fb \<and> cycle fb = c2)
           \<and> state_review_cycle st' = c2 \<and> state_draft st' \<noteq> None"
      by simp
    then show ?thesis by (intro exI)
  qed
qed

lemma review_edit_cycles_False:
  assumes "review_edit_cycles llm min_cycles cs st w = (Inr (False, st'), w')"
  shows "calls_between w w' (cycle_calls cs)
       \<and> (cs = [] \<longrightarrow> st' = st)
       \<and> (cs \<noteq> [] \<longrightarrow>
             (\<exists>fb. state_feedback st' = Some fb \<and> cycle fb = last cs
                  \<and> \<not> (approved fb \<and> min_cycles \<le> last cs))
             \<and> state_review_cycle st' = last cs \<and> state_draft st' \<noteq> None)"
  using assms
proof (induction cs arbitrary: st w)
  case Nil
  then show ?case by (simp add: calls_between_refl cycle_calls_simps)
next
  case (Cons c cs)
  from review_edit_cycles_step [OF Cons.prems]
  obtain st1 w1 where step: "review_edit_cycle llm min_cycles c st w = (Inr (False, st1), w1)"
    and rest: "review_edit_cycles llm min_cycles cs st1 w1 = (Inr (False, st'), w')"
    by auto
  note s1 = review_edit_cycle_False [OF step]
  note IH = Cons.IH [OF rest]
  from s1 IH have "calls_between w w' ([ReviewCall c, EditCall] @ cycle_calls cs)"
    using calls_between_trans by blast
  then have cb: "calls_between w w' (cycle_calls (c # cs))"
    by (simp add: cycle_calls_simps)
  have "(\<exists>fb. state_feedback st' = Some fb \<and> cycle fb = last (c # cs)
                  \<and> \<not> (approved fb \<and> min_cycles \<le> last (c # cs)))
             \<and> state_review_cycle st' = last (c # cs) \<and> state_draft st' \<noteq> None"
  proof (cases "cs = []")
    case True
    then have "st' = st1" using IH by simp
    then show ?thesis using True s1 by simp
  next
    case False
    then show ?thesis using IH by simp
  qed
  then show ?case using cb by simp
qed

lemma upto_split_at:
  assumes "[1..m] = pre @ c # post"
  shows "1 \<le> c \<and> c \<le> m \<and> pre = [1..c - 1]"
proof -
  have "c \<in> set [1..m]" using assms by simp
  then have b: "1 \<le> c" "c \<le> m" by simp_all
  have d: "distinct (pre @ c # post)" using assms by (metis distinct_upto)
  have "[1..m] = [1..c - 1] @ c # [c + 1..m]" using b by (rule upto_split3)
  then have e: "pre @ c # post = [1..c - 1] @ c # [c + 1..m]" using assms by simp
  have "c \<notin> set pre" "c \<notin> set post" using d by auto
  then have "pre = [1..c - 1]" using e by (simp add: append_Cons_eq_iff)
  then show ?thesis using b by simp
qed

lemma upto_snoc: "1 \<le> c \<Longrightarrow> [1..c - 1] @ [c] = [1..c]"
  using upto_rec2 [of 1 c] by simp

lemma last_upto: "1 \<le> m \<Longrightarrow> last [1..m] = m"
  using upto_snoc [of m, symmetric] by (simp del: upto.simps)


lemma stage_review_edit_loop_unfold:
  assumes "review_edit_cycles llm min_cycles [1..max_cycles] st w = (r1, w1)"
  shows "stage_review_edit_loop llm max_cycles min_cycles st w =
     (case r1 of
        Inl e \<Rightarrow> (Inl e, w1)
      | Inr (b, st') \<Rightarrow>
          if unapproved st' then (Inr st', w1\<lparr>log := log w1 @ [MaxCyclesReached]\<rparr>)
          else (Inr st', w1))"
  using assms
  by (simp add: stage_review_edit_loop_def io_bind_def io_log_def io_return_def unapproved_def
           split: sum.splits prod.splits)

lemma stage_review_edit_loop_shape:
  assumes "stage_review_edit_loop llm max_cycles min_cycles st w = (r, w')"
  shows "\<exists>tr k. calls_between w w' tr \<and> 0 \<le> k \<and> k \<le> max 0 max_cycles
           \<and> review_numbers tr = [1..k] \<and> run_shape max_cycles min_cycles st r tr k"
proof -
  obtain r1 w1 where loop: "review_edit_cycles llm min_cycles [1..max_cycles] st w = (r1, w1)"
    by (cases "review_edit_cycles llm min_cycles [1..max_cycles] st w")
  note u = stage_review_edit_loop_unfold [OF loop]
  show ?thesis
  proof (cases r1)
    case (Inl e)
    then have r: "r = Inl e" "w' = w1" using assms u by simp_all
    from review_edit_cycles_Inl [OF loop [unfolded Inl]] obtain pre c post where
      sp: "[1..max_cycles] = pre @ c # post"
      and t: "calls_between w w1 (cycle_calls pre @ [ReviewCall c])
               \<or> calls_between w w1 (cycle_calls (pre @ [c]))"
      by blast
    from upto_split_at [OF sp] have b: "1 \<le> c" "c \<le> max_cycles" "pre = [1..c - 1]" by simp_all
    have pc: "pre @ [c] = [1..c]" using b upto_snoc by simp
    from t obtain tr where tr: "calls_between w w1 tr"
      "tr = cycle_calls [1..c - 1] @ [ReviewCall c] \<or> tr = cycle_calls [1..c]"
      using b(3) pc by auto
    have rn: "review_numbers tr = [1..c]"
      using tr(2) pc b(3)
      by (auto simp: review_numbers_append review_numbers_cycle_calls)
    have "run_shape max_cycles min_cycles st r tr c"
      unfolding run_shape_def using r(1) b(1) tr(2) by simp
    then have "calls_between w w' tr \<and> 0 \<le> c \<and> c \<le> max 0 max_cycles
           \<and> review_numbers tr = [1..c] \<and> run_shape max_cycles min_cycles st r tr c"
      using tr(1) r(2) b rn by simp
    then show ?thesis by (intro exI)
  next
    case (Inr x)
    obtain broke st' where x: "x = (broke, st')" by (cases x)
    show ?thesis
    proof (cases broke)
      case True
      have loop': "review_edit_cycles llm min_cycles [1..max_cycles] st w = (Inr (True, st'), w1)"
        using loop Inr x True by simp
      from review_edit_cycles_True [OF loop'] obtain pre c post fb where
        sp: "[1..max_cycles] = pre @ c # post"
        and t: "calls_between w w1 (cycle_calls pre @ [ReviewCall c])"
        and f: "min_cycles \<le> c" "state_feedback st' = Some fb" "approved fb" "cycle fb = c"
          "state_review_cycle st' = c" "state_draft st' \<noteq> None"
        by blast
      from upto_split_at [OF sp] have b: "1 \<le> c" "c \<le> max_cycles" "pre = [1..c - 1]"
        by simp_all
      have pc: "pre @ [c] = [1..c]" using b upto_snoc by simp
      have "\<not> unapproved st'" using f(2,3) by (simp add: unapproved_def)
      then have r: "r = Inr st'" "w' = w1" using assms u Inr x by simp_all
      let ?tr = "cycle_calls [1..c - 1] @ [ReviewCall c]"
      have rn: "review_numbers ?tr = [1..c]"
        using pc b(3) by (simp add: review_numbers_append review_numbers_cycle_calls)
      have "run_shape max_cycles min_cycles st r ?tr c"
        unfolding run_shape_def using r(1) b(1) f by simp
      then have "calls_between w w' ?tr \<and> 0 \<le> c \<and> c \<le> max 0 max_cycles
           \<and> review_numbers ?tr = [1..c] \<and> run_shape max_cycles min_cycles st r ?tr c"
        using t r(2) b rn by simp
      then show ?thesis by (intro exI)
    next
      case False
      have loop': "review_edit_cycles llm min_cycles [1..max_cycles] st w = (Inr (False, st'), w1)"
        using loop Inr x False by simp
      note f = review_edit_cycles_False [OF loop']
      have e: "[1..max_cycles] = [] \<longleftrightarrow> max_cycles < 1" by simp
      have l: "1 \<le> max_cycles \<Longrightarrow> last [1..max_cycles] = max_cycles" by (rule last_upto)
      let ?k = "max 0 max_cycles"
      let ?tr = "cycle_calls [1..max_cycles] @ (if unapproved st' then [MaxCyclesWarning] else [])"
      have r: "r = Inr st'" using assms u Inr x False by (simp split: if_splits)
      have cb: "calls_between w w' ?tr"
      proof (cases "unapproved st'")
        case True
        then have "w' = w1\<lparr>log := log w1 @ [MaxCyclesReached]\<rparr>"
          using assms u Inr x False by simp
        then show ?thesis
          using calls_between_trans [OF f [THEN conjunct1] calls_between_log [of w1 MaxCyclesReached]]
            True by simp
      next
        case un: False
        then have "w' = w1" using assms u Inr x False by simp
        then show ?thesis using f un by simp
      qed
      have rn: "review_numbers ?tr = [1..?k]"
      proof -
        have "[1..max_cycles] = [1..?k]" by (cases "max_cycles < 0") simp_all
        then show ?thesis by (simp add: review_numbers_append review_numbers_cycle_calls)
      qed
      have a1: "max_cycles < 1 \<longrightarrow> st' = st" using f e by simp
      have a2: "1 \<le> max_cycles \<longrightarrow>
                  (\<exists>fb. state_feedback st' = Some fb \<and> cycle fb = max_cycles
                       \<and> \<not> (approved fb \<and> min_cycles \<le> max_cycles))
                  \<and> state_review_cycle st' = max_cycles \<and> state_draft st' \<noteq> None"
      proof
        assume m: "1 \<le> max_cycles"
        then have "[1..max_cycles] \<noteq> []" by simp
        with f l [OF m] show "(\<exists>fb. state_feedback st' = Some fb \<and> cycle fb = max_cycles
                       \<and> \<not> (approved fb \<and> min_cycles \<le> max_cycles))
                  \<and> state_review_cycle st' = max_cycles \<and> state_draft st' \<noteq> None"
          by simp
      qed
      have a3: "1 \<le> max_cycles \<and> min_cycles \<le> max_cycles \<longrightarrow> unapproved st'"
        using a2 by (auto simp: unapproved_def)
      have "run_shape max_cycles min_cycles st r ?tr ?k"
        unfolding run_shape_def using r a1 a2 a3 by simp
      then have "calls_between w w' ?tr \<and> 0 \<le> ?k \<and> ?k \<le> max 0 max_cycles
           \<and> review_numbers ?tr = [1..?k] \<and> run_shape max_cycles min_cycles st r ?tr ?k"
        using cb rn by simp
      then show ?thesis by (intro exI)
    qed
  qed
qed


text \<open>An approving review at a cycle that has reached the minimum ends the loop at once.\<close>

lemma review_edit_cycles_break:
  assumes "reviewer_execute_review llm (state_draft st) c
             (w\<lparr>log := log w @ [Progress ''review'' (70 + c * 5) (''Review cycle '' @ py_str c)]\<rparr>)
             = (Inr (res, d), w1)"
    and "data res = Some dat" and "approved_key dat" and "min_cycles \<le> c"
  shows "\<exists>st' w2. review_edit_cycles llm min_cycles (c # cs) st w = (Inr (True, st'), w2)
           \<and> calls_between w1 w2 []
           \<and> state_feedback st' = Some (feedback dat) \<and> state_draft st' = Some d
           \<and> state_review_cycle st' = c"
proof -
  let ?w0 = "w\<lparr>log := log w @ [Progress ''review'' (70 + c * 5) (''Review cycle '' @ py_str c)]\<rparr>"
  obtain d0 where d0: "state_draft st = Some d0"
    using assms(1) by (cases "state_draft st")
                 (simp_all add: reviewer_execute_review_def io_bind_def io_log_def io_raise_def)
  then have "review llm d0 c ?w0 = (Inr (res, d), w1)"
    using assms(1) by (simp add: reviewer_execute_review_def)
  from review_result [OF this] have ok: "success res" by blast
  let ?st3 = "(update_stage (st\<lparr>state_review_cycle := c\<rparr>) REVIEW (70 + c * 5))
                  \<lparr>state_draft := Some d, state_feedback := Some (feedback dat)\<rparr>"
  let ?e2 = "Progress ''review'' (72 + c * 5) (''Found '' @ py_str (int (issue_count dat)) @ '' issues'')"
  let ?e3 = "Progress ''review'' 90 ''Paper approved''"
  let ?w2 = "w1\<lparr>log := log w1 @ [?e2]\<rparr>"
  let ?w3 = "?w2\<lparr>log := log ?w2 @ [?e3]\<rparr>"
  from review_edit_cycle_after_review [OF assms(1) ok assms(2), of min_cycles] assms(3,4)
  have "review_edit_cycle llm min_cycles c st w = (Inr (True, ?st3), ?w3)"
    by (simp add: Let_def)
  then have run: "review_edit_cycles llm min_cycles (c # cs) st w = (Inr (True, ?st3), ?w3)"
    by simp
  have "calls_between w1 ?w3 ([] @ [])"
    using calls_between_log [of w1 ?e2] calls_between_log [of ?w2 ?e3]
    by (intro calls_between_trans) (simp_all del: calls.simps add: calls_Progress)
  then have cb: "calls_between w1 ?w3 []" by simp
  have "review_edit_cycles llm min_cycles (c # cs) st w = (Inr (True, ?st3), ?w3)
           \<and> calls_between w1 ?w3 []
           \<and> state_feedback ?st3 = Some (feedback dat) \<and> state_draft ?st3 = Some d
           \<and> state_review_cycle ?st3 = c"
    using run cb by (simp add: update_stage_def)
  then show ?thesis by (intro exI)
qed

subsection \<open>The loop returns when the language model answers\<close>

lemma never_raises_at_most_ValueError:
  "llm_never_raises llm \<Longrightarrow> llm_raises_at_most_ValueError llm"
  unfolding llm_never_raises_def llm_raises_at_most_ValueError_def
  by (metis Inl_Inr_False prod.inject)

lemma edit_pass_total:
  assumes "llm_never_raises llm"
  shows "\<exists>st' w'. edit_pass llm c d fb st w = (Inr st', w')"
proof -
  let ?w0 = "w\<lparr>log := log w @ [Progress ''editing'' (75 + c * 5) (''Editing cycle '' @ py_str c)]\<rparr>"
  from apply_all_fixes_total [OF never_raises_at_most_ValueError [OF assms]]
  obtain x w1 where ap: "apply_all_fixes llm d fb ?w0 = (Inr x, w1)" by blast
  obtain eres d' fb' where x: "x = (eres, d', fb')" using prod_cases3 [of x] by blast
  from apply_all_fixes_effect [OF ap [unfolded x]] obtain dat where
    "success eres" "data eres = Some dat" by blast
  then show ?thesis
    using ap x
    by (simp add: edit_pass_def Let_def io_bind_def report_progress_def io_log_def io_return_def)
qed

lemma review_edit_cycle_total:
  assumes "llm_never_raises llm" and "state_draft st \<noteq> None"
  shows "\<exists>b st' w'. review_edit_cycle llm min_cycles c st w = (Inr (b, st'), w')
           \<and> state_draft st' \<noteq> None"
proof -
  let ?w0 = "w\<lparr>log := log w @ [Progress ''review'' (70 + c * 5) (''Review cycle '' @ py_str c)]\<rparr>"
  obtain d0 where d0: "state_draft st = Some d0" using assms(2) by blast
  from review_total [OF assms(1)] obtain x w1 where rv: "review llm d0 c ?w0 = (Inr x, w1)"
    by blast
  obtain res d where x: "x = (res, d)" by (cases x)
  from review_result [OF rv [unfolded x]] obtain dat where
    dat: "data res = Some dat" "success res" by blast
  have rv': "reviewer_execute_review llm (state_draft st) c ?w0 = (Inr (res, d), w1)"
    using rv x d0 by (simp add: reviewer_execute_review_def)
  note u = review_edit_cycle_after_review [OF rv' dat(2) dat(1), of min_cycles]
  let ?st3 = "(update_stage (st\<lparr>state_review_cycle := c\<rparr>) REVIEW (70 + c * 5))
                  \<lparr>state_draft := Some d, state_feedback := Some (feedback dat)\<rparr>"
  let ?w2 = "w1\<lparr>log := log w1 @ [Progress ''review'' (72 + c * 5)
                     (''Found '' @ py_str (int (issue_count dat)) @ '' issues'')]\<rparr>"
  from edit_pass_total [OF assms(1)] obtain st4 w4 where
    ep: "edit_pass llm c d (feedback dat) ?st3 ?w2 = (Inr st4, w4)" by blast
  obtain r w' where run: "review_edit_cycle llm min_cycles c st w = (r, w')"
    by (cases "review_edit_cycle llm min_cycles c st w")
  have "\<exists>b st'. r = Inr (b, st')"
    using run u ep by (cases "approved_key dat \<and> min_cycles \<le> c") (auto simp: Let_def)
  then obtain b st' where r: "r = Inr (b, st')" by blast
  have "state_draft st' \<noteq> None"
    using review_edit_cycle_True [of llm min_cycles c st w st' w']
      review_edit_cycle_False [of llm min_cycles c st w st' w'] run r
    by (cases b) simp_all
  then have "review_edit_cycle llm min_cycles c st w = (Inr (b, st'), w')
           \<and> state_draft st' \<noteq> None"
    using run r by simp
  then show ?thesis by (intro exI)
qed

lemma review_edit_cycles_total:
  assumes "llm_never_raises llm"
  shows "state_draft st \<noteq> None \<Longrightarrow>
           \<exists>b st' w'. review_edit_cycles llm min_cycles cs st w = (Inr (b, st'), w')"
proof (induction cs arbitrary: st w)
  case Nil
  have "review_edit_cycles llm min_cycles [] st w = (Inr (False, st), w)" by simp
  then show ?case by (intro exI)
next
  case (Cons c cs)
  from review_edit_cycle_total [OF assms Cons.prems] obtain b st1 w1 where
    step: "review_edit_cycle llm min_cycles c st w = (Inr (b, st1), w1)"
    and d1: "state_draft st1 \<noteq> None"
    by blast
  show ?case
  proof (cases b)
    case True
    then have "review_edit_cycles llm min_cycles (c # cs) st w = (Inr (True, st1), w1)"
      using step by simp
    then show ?thesis by (intro exI)
  next
    case False
    then show ?thesis using step Cons.IH [OF d1, of w1] by simp
  qed
qed

lemma stage_review_edit_loop_total:
  assumes "llm_never_raises llm" and "state_draft st \<noteq> None"
  shows "\<exists>st' w'. stage_review_edit_loop llm max_cycles min_cycles st w = (Inr st', w')"
proof -
  from review_edit_cycles_total [OF assms] obtain b st' w1 where
    loop: "review_edit_cycles llm min_cycles [1..max_cycles] st w = (Inr (b, st'), w1)"
    by blast
  from stage_review_edit_loop_unfold [OF loop] show ?thesis
    by (cases "unapproved st'") simp_all
qed

end
